theory Spec2Isabelle
  imports Complex_Main "HOL-Library.Word" "HOL-Library.Char_ord" "HOL-Library.List_Lexorder"
begin

unbundle bit_operations_syntax

section \<open>The data model of kvt.go\<close>

text \<open>
  \<^verbatim>\<open>type Store map[string]*ValueTimestamp\<close> and
  \<^verbatim>\<open>type ValueTimestamp struct { Value *string; Timestamp int64 }\<close>.

  A store holds pointers, and \<^verbatim>\<open>SetTimestamped\<close> writes through them while
  \<^verbatim>\<open>Absorb\<close> copies them from one store into another, so the entries live in
  an explicit heap: a pointer is an address or nil, a store maps a key to a pointer, and
  the heap maps an address to the struct found there. \<^verbatim>\<open>Value\<close> is a pointer to
  an immutable Go string that nothing writes through, so it is an optional string (nil is
  \<open>None\<close>). \<^verbatim>\<open>int64\<close> is a 64-bit word read as two's complement; Go's
  \<^verbatim>\<open><\<close> on it is the signed comparison \<open><s\<close>. A Go string is a sequence of
  bytes: a \<open>string\<close> of HOL, whose characters are bytes.
\<close>

type_synonym int64 = "64 word"
type_synonym uint64 = "64 word"
type_synonym addr = nat
type_synonym ptr = "addr option"

record ValueTimestamp =
  Value :: "string option"
  Timestamp :: int64

text \<open>The heap: the struct at each address, and the next address \<^verbatim>\<open>&ValueTimestamp{...}\<close>
  will allocate. Addresses below \<open>fresh\<close> are the allocated ones.\<close>

record heap =
  cells :: "addr \<Rightarrow> ValueTimestamp"
  fresh :: addr

type_synonym Store = "string \<rightharpoonup> ptr"

text \<open>A nil pointer dereference is the only run-time panic of the package's own code.\<close>

datatype panic = NilDereference

text \<open>\<^verbatim>\<open>store[key]\<close>: the zero value nil when the key is absent.\<close>

definition index :: "Store \<Rightarrow> string \<Rightarrow> ptr" where
  "index store key = (case store key of None \<Rightarrow> None | Some p \<Rightarrow> p)"

text \<open>\<^verbatim>\<open>&ValueTimestamp{v, t}\<close>: a new struct at an address nothing else holds.\<close>

definition new :: "heap \<Rightarrow> ValueTimestamp \<Rightarrow> addr \<times> heap" where
  "new h vt = (fresh h, h\<lparr>cells := (cells h)(fresh h := vt), fresh := Suc (fresh h)\<rparr>)"

section \<open>The operations of Store\<close>

definition Get :: "heap \<Rightarrow> Store \<Rightarrow> string \<Rightarrow> string" where
  "Get h store key =
     (case index store key of
        None \<Rightarrow> ''''
      | Some a \<Rightarrow> (case Value (cells h a) of None \<Rightarrow> '''' | Some v \<Rightarrow> v))"

text \<open>The two assignments of the second branch write through the pointer found in the
  map: the map itself stays as it is and the struct changes in place.\<close>

definition SetTimestamped :: "heap \<Rightarrow> Store \<Rightarrow> string \<Rightarrow> string \<Rightarrow> int64 \<Rightarrow> heap \<times> Store" where
  "SetTimestamped h store key value timestamp =
     (case index store key of
        None \<Rightarrow>
          (let (a, h') = new h \<lparr>Value = Some value, Timestamp = timestamp\<rparr>
           in (h', store(key \<mapsto> Some a)))
      | Some a \<Rightarrow>
          if Timestamp (cells h a) <s timestamp
          then (h\<lparr>cells := (cells h)(a := (cells h a)\<lparr>Value := Some value, Timestamp := timestamp\<rparr>)\<rparr>, store)
          else (h, store))"

definition DeleteTimestamped :: "heap \<Rightarrow> Store \<Rightarrow> string \<Rightarrow> int64 \<Rightarrow> heap \<times> Store" where
  "DeleteTimestamped h store key timestamp =
     (case index store key of
        None \<Rightarrow>
          (let (a, h') = new h \<lparr>Value = None, Timestamp = timestamp\<rparr>
           in (h', store(key \<mapsto> Some a)))
      | Some a \<Rightarrow>
          if Timestamp (cells h a) <s timestamp
          then (h\<lparr>cells := (cells h)(a := (cells h a)\<lparr>Value := None, Timestamp := timestamp\<rparr>)\<rparr>, store)
          else (h, store))"

text \<open>
  \<^verbatim>\<open>for key, valueTimestamp := range store\<close> visits the keys of the map in an
  order Go does not specify. The order is the argument \<open>ks\<close>: the theorems below take
  any duplicate-free list of the keys of the map. A key deleted before the loop reaches it
  is not produced, which is the \<open>None\<close> branch.
\<close>

fun Purge :: "heap \<Rightarrow> Store \<Rightarrow> string list \<Rightarrow> int64 \<Rightarrow> panic + Store" where
  "Purge h store [] cutoff = Inr store"
| "Purge h store (key # ks) cutoff =
     (case store key of
        None \<Rightarrow> Purge h store ks cutoff
      | Some None \<Rightarrow> Inl NilDereference
      | Some (Some a) \<Rightarrow>
          if Value (cells h a) = None \<and> Timestamp (cells h a) <s cutoff
          then Purge h (store(key := None)) ks cutoff
          else Purge h store ks cutoff)"

text \<open>\<^verbatim>\<open>Absorb\<close> reads the two timestamps and stores the donor's pointer itself; it
  writes to no struct, so the heap is an argument only. With the receiver's pointer nil,
  \<^verbatim>\<open>||\<close> does not evaluate its right side, and a nil donor pointer is copied.\<close>

fun Absorb :: "heap \<Rightarrow> Store \<Rightarrow> Store \<Rightarrow> string list \<Rightarrow> panic + Store" where
  "Absorb h store store2 [] = Inr store"
| "Absorb h store store2 (key # ks) =
     (case store2 key of
        None \<Rightarrow> Absorb h store store2 ks
      | Some valueTimestamp2 \<Rightarrow>
          (case index store key of
             None \<Rightarrow> Absorb h (store(key \<mapsto> valueTimestamp2)) store2 ks
           | Some a \<Rightarrow>
               (case valueTimestamp2 of
                  None \<Rightarrow> Inl NilDereference
                | Some a2 \<Rightarrow>
                    if Timestamp (cells h a) <s Timestamp (cells h a2)
                    then Absorb h (store(key \<mapsto> valueTimestamp2)) store2 ks
                    else Absorb h store store2 ks)))"

subsection \<open>Hash\<close>

text \<open>\<^verbatim>\<open>%d\<close> of an int64: decimal digits, with a minus sign for a negative number.\<close>

function digits :: "int \<Rightarrow> string" where
  "digits n = (if n < 10 then [char_of (48 + n)] else digits (n div 10) @ [char_of (48 + n mod 10)])"
  by pat_completeness auto
termination
  by (relation "measure nat") auto

definition fmt_d :: "int64 \<Rightarrow> string" where
  "fmt_d t = (if sint t < 0 then CHR ''-'' # digits (- sint t) else digits (sint t))"

text \<open>\<^verbatim>\<open>%016x\<close> of a uint64: sixteen lower-case hexadecimal digits, the most
  significant first.\<close>

definition hex_digit :: "uint64 \<Rightarrow> char" where
  "hex_digit d = (if d < 10 then char_of (48 + unat d) else char_of (87 + unat d))"

definition fmt_016x :: "uint64 \<Rightarrow> string" where
  "fmt_016x w = map (\<lambda>i. hex_digit (drop_bit (4 * i) w AND 15)) (rev [0..<16])"

text \<open>\<^verbatim>\<open>hash/fnv\<close>, \<^verbatim>\<open>New64a\<close>: the hasher starts at the offset basis, and
  \<^verbatim>\<open>Write\<close> folds each byte in with an exclusive or followed by a multiplication
  by the prime, modulo \<open>2 ^ 64\<close>.\<close>

definition offset64 :: uint64 where
  "offset64 = 14695981039346656037"

definition prime64 :: uint64 where
  "prime64 = 1099511628211"

definition fnv_Write :: "uint64 \<Rightarrow> string \<Rightarrow> uint64" where
  "fnv_Write hash bs = fold (\<lambda>c hash. (hash XOR of_char c) * prime64) bs hash"

text \<open>The second loop of \<^verbatim>\<open>Hash\<close>: one \<^verbatim>\<open>Write\<close> of
  \<^verbatim>\<open>Sprintf("%s\n%d\n", k, store[k].Timestamp)\<close> per key.\<close>

fun Hash_write :: "heap \<Rightarrow> Store \<Rightarrow> uint64 \<Rightarrow> string list \<Rightarrow> panic + uint64" where
  "Hash_write h store hasher [] = Inr hasher"
| "Hash_write h store hasher (k # ks) =
     (case index store k of
        None \<Rightarrow> Inl NilDereference
      | Some a \<Rightarrow>
          Hash_write h store
            (fnv_Write hasher (k @ [CHR 0x0A] @ fmt_d (Timestamp (cells h a)) @ [CHR 0x0A])) ks)"

text \<open>The first loop appends the keys in the order \<open>range_order\<close> of the map's
  iteration; \<^verbatim>\<open>sort.Strings\<close> puts them in increasing order, comparing byte by byte
  (the order of \<open>string\<close> with \<open>Char_ord\<close> and \<open>List_Lexorder\<close>).\<close>

definition Hash :: "heap \<Rightarrow> Store \<Rightarrow> string list \<Rightarrow> panic + string" where
  "Hash h store range_order =
     (case Hash_write h store offset64 (sort range_order) of
        Inl e \<Rightarrow> Inl e
      | Inr sum64 \<Rightarrow> Inr (fmt_016x sum64))"

section \<open>Views of a store and the data model's invariants\<close>

text \<open>The Entry a key maps to: the struct its pointer leads to, and nothing when the key is
  absent (or its pointer nil).\<close>

definition entry :: "heap \<Rightarrow> Store \<Rightarrow> string \<Rightarrow> ValueTimestamp option" where
  "entry h store key = (case index store key of None \<Rightarrow> None | Some a \<Rightarrow> Some (cells h a))"

text \<open>Every key present in the mapping has an Entry: no key maps to a nil pointer.\<close>

definition entries_present :: "Store \<Rightarrow> bool" where
  "entries_present store = (\<forall>key. store key \<noteq> Some None)"

subsection \<open>Concrete stores\<close>

definition empty_heap :: heap where
  "empty_heap = \<lparr>cells = (\<lambda>_. \<lparr>Value = None, Timestamp = 0\<rparr>), fresh = 0\<rparr>"

text \<open>The store of \<^verbatim>\<open>ExampleStore_Purge\<close>, three deletion markers an hour apart, and
  a live entry older than all of them.\<close>

definition purge_heap :: heap where
  "purge_heap =
     \<lparr>cells = (\<lambda>_. \<lparr>Value = None, Timestamp = 0\<rparr>)
        (0 := \<lparr>Value = None, Timestamp = 1479722645000000006\<rparr>,
         1 := \<lparr>Value = None, Timestamp = 1479726245000000006\<rparr>,
         2 := \<lparr>Value = None, Timestamp = 1479729845000000006\<rparr>,
         3 := \<lparr>Value = Some ''one'', Timestamp = 1\<rparr>),
      fresh = 4\<rparr>"

definition purge_store :: Store where
  "purge_store = [''A'' \<mapsto> Some 0, ''B'' \<mapsto> Some 1, ''C'' \<mapsto> Some 2, ''D'' \<mapsto> Some 3]"

text \<open>The stores of the package's overview example just before \<^verbatim>\<open>store1.Absorb(store2)\<close>:
  \<open>store1\<close> wrote A, B and C first (time 1), \<open>store2\<close> then deleted B and wrote C, D, E
  and F (times 2 to 6), and \<open>store1\<close> wrote E and deleted F last (times 7 and 8). Key G is
  added to both with the same timestamp and different values.\<close>

definition readme_heap :: heap where
  "readme_heap =
     \<lparr>cells = (\<lambda>_. \<lparr>Value = None, Timestamp = 0\<rparr>)
        (0 := \<lparr>Value = Some ''one'', Timestamp = 1\<rparr>,
         1 := \<lparr>Value = Some ''two'', Timestamp = 1\<rparr>,
         2 := \<lparr>Value = Some ''three'', Timestamp = 1\<rparr>,
         3 := \<lparr>Value = Some ''eight'', Timestamp = 7\<rparr>,
         4 := \<lparr>Value = None, Timestamp = 8\<rparr>,
         5 := \<lparr>Value = None, Timestamp = 2\<rparr>,
         6 := \<lparr>Value = Some ''four'', Timestamp = 3\<rparr>,
         7 := \<lparr>Value = Some ''five'', Timestamp = 4\<rparr>,
         8 := \<lparr>Value = Some ''six'', Timestamp = 5\<rparr>,
         9 := \<lparr>Value = Some ''seven'', Timestamp = 6\<rparr>,
         10 := \<lparr>Value = Some ''mine'', Timestamp = 9\<rparr>,
         11 := \<lparr>Value = Some ''yours'', Timestamp = 9\<rparr>),
      fresh = 12\<rparr>"

definition readme_store1 :: Store where
  "readme_store1 =
     [''A'' \<mapsto> Some 0, ''B'' \<mapsto> Some 1, ''C'' \<mapsto> Some 2, ''E'' \<mapsto> Some 3, ''F'' \<mapsto> Some 4,
      ''G'' \<mapsto> Some 10]"

definition readme_store2 :: Store where
  "readme_store2 =
     [''B'' \<mapsto> Some 5, ''C'' \<mapsto> Some 6, ''D'' \<mapsto> Some 7, ''E'' \<mapsto> Some 8, ''F'' \<mapsto> Some 9,
      ''G'' \<mapsto> Some 11]"

subsection \<open>The fingerprint as the specification words it\<close>

text \<open>The timestamp each key carries: all that \<^verbatim>\<open>Hash\<close> is meant to depend on.\<close>

definition timestamps :: "heap \<Rightarrow> Store \<Rightarrow> string \<rightharpoonup> int64" where
  "timestamps h store key = map_option Timestamp (entry h store key)"

text \<open>FNV-1a of a byte string, 64 bits wide, as the algorithm is published: start from the
  offset basis; for each byte, exclusive-or it into the accumulator, then multiply by the
  FNV prime.\<close>

definition fnv1a_64 :: "string \<Rightarrow> uint64" where
  "fnv1a_64 bs = foldl (\<lambda>acc b. (acc XOR of_char b) * 1099511628211) 14695981039346656037 bs"

text \<open>The specification's algorithm: the keys in increasing order, one record
  \<open>key, newline, decimal timestamp, newline\<close> per key, all of them fed to the accumulator,
  and the accumulator printed as sixteen hexadecimal digits.\<close>

definition Hash_record :: "(string \<rightharpoonup> int64) \<Rightarrow> string \<Rightarrow> string" where
  "Hash_record ts key =
     key @ [CHR 0x0A] @ (case ts key of None \<Rightarrow> [] | Some t \<Rightarrow> fmt_d t) @ [CHR 0x0A]"

definition Hash_spec :: "(string \<rightharpoonup> int64) \<Rightarrow> string" where
  "Hash_spec ts =
     fmt_016x (fnv1a_64 (concat (map (Hash_record ts) (sorted_list_of_set (dom ts)))))"

text \<open>The store of \<^verbatim>\<open>ExampleStore_Hash\<close>, and one with the same keys and timestamps,
  other values and other addresses.\<close>

definition hash_heap :: heap where
  "hash_heap =
     \<lparr>cells = (\<lambda>_. \<lparr>Value = None, Timestamp = 0\<rparr>)
        (0 := \<lparr>Value = Some ''one'', Timestamp = 1483326245000000006\<rparr>,
         1 := \<lparr>Value = Some ''two'', Timestamp = 1483326245000000006\<rparr>,
         2 := \<lparr>Value = Some ''three'', Timestamp = 1483326245000000006\<rparr>,
         3 := \<lparr>Value = None, Timestamp = 1483326245000000006\<rparr>,
         4 := \<lparr>Value = Some ''other'', Timestamp = 1483326245000000006\<rparr>),
      fresh = 5\<rparr>"

definition hash_store1 :: Store where
  "hash_store1 = [''A'' \<mapsto> Some 0, ''B'' \<mapsto> Some 1, ''C'' \<mapsto> Some 2]"

definition hash_store2 :: Store where
  "hash_store2 = [''C'' \<mapsto> Some 4, ''B'' \<mapsto> Some 3, ''A'' \<mapsto> Some 2]"

subsection \<open>Ownership of entries\<close>

text \<open>Every pointer of a store leads to an allocated struct.\<close>

definition allocated :: "heap \<Rightarrow> Store \<Rightarrow> bool" where
  "allocated h store = (\<forall>key a. store key = Some (Some a) \<longrightarrow> a < fresh h)"

text \<open>An Entry object is owned by a single key: a struct the receiver holds under one key
  is held under no other key, neither by the receiver nor by the donor. (After an
  \<^verbatim>\<open>Absorb\<close> the two stores share structs, each under the key it had.)\<close>

definition owned_by_key :: "Store \<Rightarrow> Store \<Rightarrow> bool" where
  "owned_by_key store store2 =
     (\<forall>key key' a. store key = Some (Some a) \<and>
        (store key' = Some (Some a) \<or> store2 key' = Some (Some a)) \<longrightarrow> key = key')"

subsection \<open>Replaying a donor's entries as individual writes\<close>

text \<open>One Entry of the donor written to the receiver through the public operations:
  \<^verbatim>\<open>SetTimestamped(key, value, timestamp)\<close> for a live Entry,
  \<^verbatim>\<open>DeleteTimestamped(key, timestamp)\<close> for a deletion marker.\<close>

definition write_entry :: "heap \<Rightarrow> Store \<Rightarrow> string \<Rightarrow> ValueTimestamp \<Rightarrow> heap \<times> Store" where
  "write_entry h store key vt =
     (case Value vt of
        None \<Rightarrow> DeleteTimestamped h store key (Timestamp vt)
      | Some v \<Rightarrow> SetTimestamped h store key v (Timestamp vt))"

text \<open>All of them, in the order \<open>ks\<close> of the donor's keys, each Entry read from the donor
  when its turn comes.\<close>

fun replay :: "heap \<Rightarrow> Store \<Rightarrow> Store \<Rightarrow> string list \<Rightarrow> panic + heap \<times> Store" where
  "replay h store store2 [] = Inr (h, store)"
| "replay h store store2 (key # ks) =
     (case store2 key of
        None \<Rightarrow> replay h store store2 ks
      | Some None \<Rightarrow> Inl NilDereference
      | Some (Some a2) \<Rightarrow>
          (case write_entry h store key (cells h a2) of
             (h', store') \<Rightarrow> replay h' store' store2 ks))"

text \<open>The Entry a key ends with when the Entry \<open>theirs\<close> of a donor meets the Entry
  \<open>ours\<close> of the receiver: the newer one, and ours when the timestamps are equal.\<close>

definition newest :: "ValueTimestamp option \<Rightarrow> ValueTimestamp option \<Rightarrow> ValueTimestamp option" where
  "newest ours theirs =
     (case theirs of
        None \<Rightarrow> ours
      | Some vt2 \<Rightarrow>
          (case ours of
             None \<Rightarrow> Some vt2
           | Some vt \<Rightarrow> if Timestamp vt <s Timestamp vt2 then Some vt2 else Some vt))"

subsection \<open>Several stores on one heap\<close>

text \<open>A Go map is a reference: a program holds several stores, and after an
  \<^verbatim>\<open>Absorb\<close> two of them can hold the same struct. A world is the heap with the
  stores of a program, each under a number.\<close>

record world =
  memory :: heap
  stores :: "nat \<Rightarrow> Store"

text \<open>One call: the store (or stores) it is made on, its arguments, and for the two loops
  the order in which \<^verbatim>\<open>range\<close> visits the keys.\<close>

datatype operation =
    OpSetTimestamped nat string string int64
  | OpDeleteTimestamped nat string int64
  | OpPurge nat "string list" int64
  | OpAbsorb nat nat "string list"

fun apply_op :: "world \<Rightarrow> operation \<Rightarrow> panic + world" where
  "apply_op w (OpSetTimestamped i key value timestamp) =
     (case SetTimestamped (memory w) (stores w i) key value timestamp of
        (h', store') \<Rightarrow> Inr \<lparr>memory = h', stores = (stores w)(i := store')\<rparr>)"
| "apply_op w (OpDeleteTimestamped i key timestamp) =
     (case DeleteTimestamped (memory w) (stores w i) key timestamp of
        (h', store') \<Rightarrow> Inr \<lparr>memory = h', stores = (stores w)(i := store')\<rparr>)"
| "apply_op w (OpPurge i ks cutoff) =
     (case Purge (memory w) (stores w i) ks cutoff of
        Inl e \<Rightarrow> Inl e
      | Inr store' \<Rightarrow> Inr \<lparr>memory = memory w, stores = (stores w)(i := store')\<rparr>)"
| "apply_op w (OpAbsorb i j ks) =
     (case Absorb (memory w) (stores w i) (stores w j) ks of
        Inl e \<Rightarrow> Inl e
      | Inr store' \<Rightarrow> Inr \<lparr>memory = memory w, stores = (stores w)(i := store')\<rparr>)"

text \<open>The worlds a sequence of calls goes through, the first one included; a panic ends it.\<close>

fun trace :: "world \<Rightarrow> operation list \<Rightarrow> world list" where
  "trace w [] = [w]"
| "trace w (op # ops) =
     w # (case apply_op w op of Inl e \<Rightarrow> [] | Inr w' \<Rightarrow> trace w' ops)"

text \<open>The timestamp a key has in one store of a world, when it has an Entry there.\<close>

definition timestamp_at :: "world \<Rightarrow> nat \<Rightarrow> string \<Rightarrow> int64 option" where
  "timestamp_at w i key = timestamps (memory w) (stores w i) key"

text \<open>Go's memory safety: every pointer held by a store is allocated.\<close>

definition well_formed :: "world \<Rightarrow> bool" where
  "well_formed w = (\<forall>i. allocated (memory w) (stores w i))"

definition empty_world :: world where
  "empty_world = \<lparr>memory = empty_heap, stores = (\<lambda>_. Map.empty)\<rparr>"

text \<open>Two stores write key A, the first absorbs the second and so shares its struct, the
  second writes A again, and the first is then asked for an older deletion and a purge.\<close>

definition shared_ops :: "operation list" where
  "shared_ops =
     [OpSetTimestamped 0 ''A'' ''one'' 1,
      OpSetTimestamped 1 ''A'' ''two'' 5,
      OpAbsorb 0 1 [''A''],
      OpSetTimestamped 1 ''A'' ''three'' 9,
      OpDeleteTimestamped 0 ''A'' 3,
      OpPurge 0 [''A''] 100]"

text \<open>What a call may do to the pointer a store holds under a key: leave it, give one to a
  key that had no Entry, or replace it by a pointer to a struct that is not older.\<close>

definition moved_forward :: "heap \<Rightarrow> ptr option \<Rightarrow> ptr option \<Rightarrow> bool" where
  "moved_forward h p p' =
     (p' = p \<or> p = None \<or> p = Some None \<or>
      (\<exists>a a'. p = Some (Some a) \<and> p' = Some (Some a') \<and> Timestamp (cells h a) \<le>s Timestamp (cells h a')))"

text \<open>The data model's invariants for a whole world: every pointer is allocated, every key
  has an Entry, and a struct is held under one key only (by one store, or by several after
  an \<^verbatim>\<open>Absorb\<close>).\<close>

definition key_owned :: "world \<Rightarrow> bool" where
  "key_owned w =
     (\<forall>i j key key' a. stores w i key = Some (Some a) \<and> stores w j key' = Some (Some a) \<longrightarrow> key = key')"

definition data_model :: "world \<Rightarrow> bool" where
  "data_model w = (well_formed w \<and> (\<forall>i. entries_present (stores w i)) \<and> key_owned w)"

text \<open>A receiver outside the data model, as a map literal can build it: one struct under the
  two keys x and y; and a donor with a newer Entry for x.\<close>

definition literal_heap :: heap where
  "literal_heap =
     \<lparr>cells = (\<lambda>_. \<lparr>Value = None, Timestamp = 0\<rparr>)
        (0 := \<lparr>Value = Some ''one'', Timestamp = 1\<rparr>,
         1 := \<lparr>Value = Some ''two'', Timestamp = 2\<rparr>),
      fresh = 2\<rparr>"

definition literal_store :: Store where
  "literal_store = [''x'' \<mapsto> Some 0, ''y'' \<mapsto> Some 0]"

definition literal_donor :: Store where
  "literal_donor = [''x'' \<mapsto> Some 1]"

section \<open>The JSON codec of ValueTimestamp\<close>

text \<open>
  \<^verbatim>\<open>MarshalJSON\<close> and \<^verbatim>\<open>UnmarshalJSON\<close> are thin layers over Go's
  \<^verbatim>\<open>encoding/json\<close>. What they ask of the library is modelled here from the
  library's own code: the scanner that validates a text (\<^verbatim>\<open>scanner.go\<close>), the
  decoder into \<^verbatim>\<open>[]interface{}\<close> (\<^verbatim>\<open>decode.go\<close>), the conversion of a
  number literal to \<^verbatim>\<open>float64\<close> (\<^verbatim>\<open>strconv.ParseFloat\<close>), and the encoder
  of a string and of an int64 (\<^verbatim>\<open>encode.go\<close>).
\<close>

subsection \<open>UTF-8\<close>

definition RuneError :: int where
  "RuneError = 0xFFFD"

definition cont :: "char \<Rightarrow> bool" where
  "cont c = (0x80 \<le> (of_char c :: int) \<and> (of_char c :: int) \<le> 0xBF)"

text \<open>\<^verbatim>\<open>utf8.DecodeRune\<close>: the code point at the start of the bytes and the number of
  bytes it takes, and \<open>(RuneError, 1)\<close> for a byte that starts no well-formed encoding.\<close>

fun DecodeRune :: "string \<Rightarrow> int \<times> nat" where
  "DecodeRune [] = (RuneError, 0)"
| "DecodeRune (c0 # s) =
     (let b0 = (of_char c0 :: int) in
      if b0 < 0x80 then (b0, 1)
      else if 0xC2 \<le> b0 \<and> b0 \<le> 0xDF then
        (case s of
           c1 # _ \<Rightarrow>
             if cont c1 then ((b0 mod 0x20) * 0x40 + of_char c1 mod 0x40, 2) else (RuneError, 1)
         | _ \<Rightarrow> (RuneError, 1))
      else if 0xE0 \<le> b0 \<and> b0 \<le> 0xEF then
        (case s of
           c1 # c2 # _ \<Rightarrow>
             if (if b0 = 0xE0 then 0xA0 else 0x80) \<le> (of_char c1 :: int) \<and>
                (of_char c1 :: int) \<le> (if b0 = 0xED then 0x9F else 0xBF) \<and> cont c2
             then (((b0 mod 0x10) * 0x40 + of_char c1 mod 0x40) * 0x40 + of_char c2 mod 0x40, 3)
             else (RuneError, 1)
         | _ \<Rightarrow> (RuneError, 1))
      else if 0xF0 \<le> b0 \<and> b0 \<le> 0xF4 then
        (case s of
           c1 # c2 # c3 # _ \<Rightarrow>
             if (if b0 = 0xF0 then 0x90 else 0x80) \<le> (of_char c1 :: int) \<and>
                (of_char c1 :: int) \<le> (if b0 = 0xF4 then 0x8F else 0xBF) \<and> cont c2 \<and> cont c3
             then ((((b0 mod 0x08) * 0x40 + of_char c1 mod 0x40) * 0x40 + of_char c2 mod 0x40) * 0x40
                     + of_char c3 mod 0x40, 4)
             else (RuneError, 1)
         | _ \<Rightarrow> (RuneError, 1))
      else (RuneError, 1))"

text \<open>\<^verbatim>\<open>utf8.AppendRune\<close>; a surrogate or a value past U+10FFFF is written as U+FFFD.\<close>

definition AppendRune :: "int \<Rightarrow> string" where
  "AppendRune r =
     (if r < 0x80 then [char_of r]
      else if r < 0x800 then [char_of (0xC0 + r div 0x40), char_of (0x80 + r mod 0x40)]
      else if (0xD800 \<le> r \<and> r < 0xE000) \<or> 0x10FFFF < r then [CHR 0xEF, CHR 0xBF, CHR 0xBD]
      else if r < 0x10000 then
        [char_of (0xE0 + r div 0x1000), char_of (0x80 + (r div 0x40) mod 0x40), char_of (0x80 + r mod 0x40)]
      else
        [char_of (0xF0 + r div 0x40000), char_of (0x80 + (r div 0x1000) mod 0x40),
         char_of (0x80 + (r div 0x40) mod 0x40), char_of (0x80 + r mod 0x40)])"

subsection \<open>The scanner\<close>

text \<open>A JSON text as the scanner sees it. A number keeps its literal and a string the bytes
  between its quotes: the decoder converts them afterwards.\<close>

datatype json =
    JNull
  | JBool bool
  | JNumber string
  | JString string
  | JArray "json list"
  | JObject "(string \<times> json) list"

text \<open>The scanner's \<^verbatim>\<open>parseState\<close> stack, each entry with what has been read of its
  array or object (latest first): an array; an object whose next key is being read, whose
  key has been read, whose value is being read, and whose value has been read.\<close>

datatype frame =
    FArray "json list"
  | FKey "(string \<times> json) list"
  | FColon "(string \<times> json) list" string
  | FValue "(string \<times> json) list" string
  | FObject "(string \<times> json) list"

datatype numstate = NNeg | N0 | N1 | NDot | NDot0 | NE | NESign | NE0

text \<open>The scanner's \<^verbatim>\<open>step\<close> function as a state, with the bytes of the literal being
  read (latest first).\<close>

datatype mode =
    BeginValue
  | BeginValueOrEmpty
  | BeginStringOrEmpty
  | BeginString
  | InString string
  | InStringEsc string
  | InStringEscU nat string
  | InNumber numstate string
  | InLiteral string json
  | EndValue
  | EndTop json
  | ScanError

definition isSpace :: "char \<Rightarrow> bool" where
  "isSpace c = (c = CHR '' '' \<or> c = CHR 0x09 \<or> c = CHR 0x0D \<or> c = CHR 0x0A)"

definition isDigit :: "char \<Rightarrow> bool" where
  "isDigit c = (CHR ''0'' \<le> c \<and> c \<le> CHR ''9'')"

definition isHex :: "char \<Rightarrow> bool" where
  "isHex c = (isDigit c \<or> (CHR ''a'' \<le> c \<and> c \<le> CHR ''f'') \<or> (CHR ''A'' \<le> c \<and> c \<le> CHR ''F''))"

definition maxNestingDepth :: int where
  "maxNestingDepth = 10000"

text \<open>A value has been read: it goes to the array or object it belongs to, or is the text's
  value when the stack is empty.\<close>

fun complete :: "json \<Rightarrow> frame list \<Rightarrow> mode \<times> frame list" where
  "complete v [] = (EndTop v, [])"
| "complete v (FArray es # st) = (EndValue, FArray (v # es) # st)"
| "complete (JString k) (FKey ms # st) = (EndValue, FColon ms k # st)"
| "complete v (FValue ms k # st) = (EndValue, FObject ((k, v) # ms) # st)"
| "complete v st = (ScanError, st)"

text \<open>\<^verbatim>\<open>stateEndValue\<close> and \<^verbatim>\<open>stateEndTop\<close>.\<close>

fun end_value :: "mode \<times> frame list \<Rightarrow> char \<Rightarrow> mode \<times> frame list" where
  "end_value (EndTop v, st) c = (if isSpace c then (EndTop v, st) else (ScanError, st))"
| "end_value (EndValue, FArray es # st) c =
     (if isSpace c then (EndValue, FArray es # st)
      else if c = CHR '','' then (BeginValue, FArray es # st)
      else if c = CHR '']'' then complete (JArray (rev es)) st
      else (ScanError, st))"
| "end_value (EndValue, FColon ms k # st) c =
     (if isSpace c then (EndValue, FColon ms k # st)
      else if c = CHR '':'' then (BeginValue, FValue ms k # st)
      else (ScanError, st))"
| "end_value (EndValue, FObject ms # st) c =
     (if isSpace c then (EndValue, FObject ms # st)
      else if c = CHR '','' then (BeginString, FKey ms # st)
      else if c = CHR ''}'' then complete (JObject (rev ms)) st
      else (ScanError, st))"
| "end_value (m, st) c = (ScanError, st)"

text \<open>\<^verbatim>\<open>stateBeginValue\<close> on a byte that is not a space.\<close>

definition begin_value :: "char \<Rightarrow> frame list \<Rightarrow> mode \<times> frame list" where
  "begin_value c st =
     (if c = CHR ''{'' then
        (if int (length st) < maxNestingDepth then (BeginStringOrEmpty, FKey [] # st) else (ScanError, st))
      else if c = CHR ''['' then
        (if int (length st) < maxNestingDepth then (BeginValueOrEmpty, FArray [] # st) else (ScanError, st))
      else if c = CHR 0x22 then (InString [], st)
      else if c = CHR ''-'' then (InNumber NNeg [c], st)
      else if c = CHR ''0'' then (InNumber N0 [c], st)
      else if c = CHR ''t'' then (InLiteral ''rue'' (JBool True), st)
      else if c = CHR ''f'' then (InLiteral ''alse'' (JBool False), st)
      else if c = CHR ''n'' then (InLiteral ''ull'' JNull, st)
      else if CHR ''1'' \<le> c \<and> c \<le> CHR ''9'' then (InNumber N1 [c], st)
      else (ScanError, st))"

text \<open>The states of a number literal, \<^verbatim>\<open>stateNeg\<close> to \<^verbatim>\<open>stateE0\<close>. A byte that
  cannot continue a complete literal ends it and is then read by \<^verbatim>\<open>stateEndValue\<close>.\<close>

fun number_step :: "numstate \<Rightarrow> string \<Rightarrow> frame list \<Rightarrow> char \<Rightarrow> mode \<times> frame list" where
  "number_step NNeg acc st c =
     (if c = CHR ''0'' then (InNumber N0 (c # acc), st)
      else if CHR ''1'' \<le> c \<and> c \<le> CHR ''9'' then (InNumber N1 (c # acc), st)
      else (ScanError, st))"
| "number_step N1 acc st c =
     (if isDigit c then (InNumber N1 (c # acc), st)
      else if c = CHR ''.'' then (InNumber NDot (c # acc), st)
      else if c = CHR ''e'' \<or> c = CHR ''E'' then (InNumber NE (c # acc), st)
      else end_value (complete (JNumber (rev acc)) st) c)"
| "number_step N0 acc st c =
     (if c = CHR ''.'' then (InNumber NDot (c # acc), st)
      else if c = CHR ''e'' \<or> c = CHR ''E'' then (InNumber NE (c # acc), st)
      else end_value (complete (JNumber (rev acc)) st) c)"
| "number_step NDot acc st c =
     (if isDigit c then (InNumber NDot0 (c # acc), st) else (ScanError, st))"
| "number_step NDot0 acc st c =
     (if isDigit c then (InNumber NDot0 (c # acc), st)
      else if c = CHR ''e'' \<or> c = CHR ''E'' then (InNumber NE (c # acc), st)
      else end_value (complete (JNumber (rev acc)) st) c)"
| "number_step NE acc st c =
     (if c = CHR ''+'' \<or> c = CHR ''-'' then (InNumber NESign (c # acc), st)
      else if isDigit c then (InNumber NE0 (c # acc), st)
      else (ScanError, st))"
| "number_step NESign acc st c =
     (if isDigit c then (InNumber NE0 (c # acc), st) else (ScanError, st))"
| "number_step NE0 acc st c =
     (if isDigit c then (InNumber NE0 (c # acc), st)
      else end_value (complete (JNumber (rev acc)) st) c)"

text \<open>One byte through the scanner.\<close>

fun step :: "mode \<times> frame list \<Rightarrow> char \<Rightarrow> mode \<times> frame list" where
  "step (BeginValue, st) c = (if isSpace c then (BeginValue, st) else begin_value c st)"
| "step (BeginValueOrEmpty, st) c =
     (if isSpace c then (BeginValueOrEmpty, st)
      else if c = CHR '']'' then end_value (EndValue, st) c
      else begin_value c st)"
| "step (BeginStringOrEmpty, st) c =
     (if isSpace c then (BeginStringOrEmpty, st)
      else if c = CHR ''}'' then
        (case st of FKey ms # st' \<Rightarrow> end_value (EndValue, FObject ms # st') c | _ \<Rightarrow> (ScanError, st))
      else if c = CHR 0x22 then (InString [], st)
      else (ScanError, st))"
| "step (BeginString, st) c =
     (if isSpace c then (BeginString, st)
      else if c = CHR 0x22 then (InString [], st)
      else (ScanError, st))"
| "step (InString acc, st) c =
     (if c = CHR 0x22 then complete (JString (rev acc)) st
      else if c = CHR 0x5C then (InStringEsc (c # acc), st)
      else if c < CHR 0x20 then (ScanError, st)
      else (InString (c # acc), st))"
| "step (InStringEsc acc, st) c =
     (if c \<in> set [CHR ''b'', CHR ''f'', CHR ''n'', CHR ''r'', CHR ''t'', CHR 0x5C, CHR ''/'', CHR 0x22]
      then (InString (c # acc), st)
      else if c = CHR ''u'' then (InStringEscU 3 (c # acc), st)
      else (ScanError, st))"
| "step (InStringEscU n acc, st) c =
     (if isHex c then
        (case n of 0 \<Rightarrow> (InString (c # acc), st) | Suc k \<Rightarrow> (InStringEscU k (c # acc), st))
      else (ScanError, st))"
| "step (InNumber ns acc, st) c = number_step ns acc st c"
| "step (InLiteral rest v, st) c =
     (case rest of
        [] \<Rightarrow> (ScanError, st)
      | x # xs \<Rightarrow>
          if c \<noteq> x then (ScanError, st)
          else if xs = [] then complete v st
          else (InLiteral xs v, st))"
| "step (EndValue, st) c = end_value (EndValue, st) c"
| "step (EndTop v, st) c = end_value (EndTop v, st) c"
| "step (ScanError, st) c = (ScanError, st)"

datatype error =
    SyntaxError
  | UnmarshalTypeError string
  | Errorf string

text \<open>\<^verbatim>\<open>checkValid\<close>: every byte through the scanner and then, as \<^verbatim>\<open>eof\<close> does,
  a space; the text is valid when that leaves the scanner past a complete top-level
  value.\<close>

definition scan :: "string \<Rightarrow> error + json" where
  "scan b =
     (case fold (\<lambda>c s. step s c) (b @ [CHR '' '']) (BeginValue, []) of
        (EndTop v, _) \<Rightarrow> Inr v
      | _ \<Rightarrow> Inl SyntaxError)"

subsection \<open>Strings and numbers of a valid text\<close>

definition hex_value :: "char \<Rightarrow> int" where
  "hex_value c =
     (if isDigit c then of_char c - 48
      else if CHR ''a'' \<le> c \<and> c \<le> CHR ''f'' then of_char c - 87
      else of_char c - 55)"

text \<open>\<^verbatim>\<open>getu4\<close>: the value of a leading \<^verbatim>\<open>\uXXXX\<close>, if there is one.\<close>

fun getu4 :: "string \<Rightarrow> int option" where
  "getu4 (c0 # c1 # h1 # h2 # h3 # h4 # s) =
     (if c0 = CHR 0x5C \<and> c1 = CHR ''u'' \<and> isHex h1 \<and> isHex h2 \<and> isHex h3 \<and> isHex h4
      then Some (((hex_value h1 * 16 + hex_value h2) * 16 + hex_value h3) * 16 + hex_value h4)
      else None)"
| "getu4 s = None"

text \<open>\<^verbatim>\<open>utf16.DecodeRune\<close>: the code point of a surrogate pair, or U+FFFD.\<close>

definition utf16_DecodeRune :: "int \<Rightarrow> int \<Rightarrow> int" where
  "utf16_DecodeRune r1 r2 =
     (if 0xD800 \<le> r1 \<and> r1 < 0xDC00 \<and> 0xDC00 \<le> r2 \<and> r2 < 0xE000
      then (r1 - 0xD800) * 0x400 + (r2 - 0xDC00) + 0x10000
      else RuneError)"

definition unescape :: "char \<Rightarrow> char" where
  "unescape e =
     (if e = CHR ''b'' then CHR 0x08
      else if e = CHR ''f'' then CHR 0x0C
      else if e = CHR ''n'' then CHR 0x0A
      else if e = CHR ''r'' then CHR 0x0D
      else if e = CHR ''t'' then CHR 0x09
      else e)"

text \<open>\<^verbatim>\<open>unquoteBytes\<close>, on the bytes between the quotes: escapes are replaced, and a
  byte sequence that is not UTF-8 becomes U+FFFD. The scanner has checked the escapes; on
  a malformed one (which Go reports as a failure) the result stops.\<close>

function unquote :: "string \<Rightarrow> string" where
  "unquote [] = []"
| "unquote (c # s) =
     (if c = CHR 0x5C then
        (case s of
           [] \<Rightarrow> []
         | e # s' \<Rightarrow>
             if e = CHR ''u'' then
               (case getu4 (c # s) of
                  None \<Rightarrow> []
                | Some rr \<Rightarrow>
                    if 0xD800 \<le> rr \<and> rr < 0xE000 then
                      (let dec = utf16_DecodeRune rr (case getu4 (drop 5 s) of None \<Rightarrow> - 1 | Some rr1 \<Rightarrow> rr1)
                       in if dec \<noteq> RuneError then AppendRune dec @ unquote (drop 11 s)
                          else AppendRune RuneError @ unquote (drop 5 s))
                    else AppendRune rr @ unquote (drop 5 s))
             else unescape e # unquote s')
      else if (of_char c :: int) < 0x80 then c # unquote s
      else (case DecodeRune (c # s) of (rr, width) \<Rightarrow> AppendRune rr @ unquote (drop (width - 1) s)))"
  by pat_completeness auto
termination
  by (relation "measure length") auto

text \<open>The exact value of a number literal.\<close>

definition decimal :: "string \<Rightarrow> int" where
  "decimal ds = foldl (\<lambda>n c. 10 * n + (of_char c - 48)) 0 ds"

definition number_value :: "string \<Rightarrow> rat" where
  "number_value s =
     (let negative = (take 1 s = ''-'');
          s1 = (if negative then drop 1 s else s);
          int_part = takeWhile isDigit s1;
          s2 = dropWhile isDigit s1;
          has_frac = (take 1 s2 = ''.'');
          frac_part = (if has_frac then takeWhile isDigit (drop 1 s2) else []);
          s3 = (if has_frac then dropWhile isDigit (drop 1 s2) else s2);
          s4 = drop 1 s3;
          exponent =
            (if take 1 s4 = ''-'' then - decimal (drop 1 s4)
             else if take 1 s4 = ''+'' then decimal (drop 1 s4)
             else decimal s4);
          mantissa = decimal (int_part @ frac_part);
          e10 = exponent - int (length frac_part);
          magnitude =
            (if 0 \<le> e10 then of_int (mantissa * 10 ^ nat e10)
             else of_int mantissa / of_int (10 ^ nat (- e10)))
      in if negative then - magnitude else magnitude)"

subsection \<open>float64\<close>

text \<open>
  A finite float64 is the rational number it stands for (the decoder produces neither an
  infinity nor a NaN, and nothing here tells the two zeros apart). Rounding to float64 is
  to the nearest value with a 53-bit significand, ties to the even one, on the grid of
  \<open>2 ^ - 1074\<close> at the bottom of the range.
\<close>

function bit_length :: "int \<Rightarrow> int" where
  "bit_length n = (if n \<le> 0 then 0 else 1 + bit_length (n div 2))"
  by pat_completeness auto
termination
  by (relation "measure nat") auto

definition pow2 :: "int \<Rightarrow> rat" where
  "pow2 e = (if 0 \<le> e then 2 ^ nat e else 1 / 2 ^ nat (- e))"

text \<open>The \<open>e\<close> with \<open>2 ^ e \<le> a < 2 ^ (e + 1)\<close>, for a positive \<open>a\<close>.\<close>

definition floor_log2 :: "rat \<Rightarrow> int" where
  "floor_log2 a =
     (case quotient_of a of
        (n, d) \<Rightarrow> (let e = bit_length n - bit_length d in if pow2 e \<le> a then e else e - 1))"

definition round_even :: "rat \<Rightarrow> int" where
  "round_even x =
     (let f = \<lfloor>x\<rfloor>; r = x - of_int f
      in if r < 1 / 2 then f else if 1 / 2 < r then f + 1 else if even f then f else f + 1)"

definition round_float64 :: "rat \<Rightarrow> rat" where
  "round_float64 q =
     (if q = 0 then 0
      else
        (let a = \<bar>q\<bar>;
             ulp = pow2 (max (floor_log2 a - 52) (- 1074));
             r = of_int (round_even (a / ulp)) * ulp
         in if q < 0 then - r else r))"

text \<open>\<^verbatim>\<open>strconv.ParseFloat(s, 64)\<close> on a literal of the JSON grammar: the nearest
  float64, and a range error when that is past the largest one, which is when it has
  reached \<open>2 ^ 1024\<close>.\<close>

definition ParseFloat :: "string \<Rightarrow> rat option" where
  "ParseFloat s =
     (let f = round_float64 (number_value s)
      in if f \<noteq> 0 \<and> 1024 \<le> floor_log2 \<bar>f\<bar> then None else Some f)"

text \<open>\<^verbatim>\<open>int64(t)\<close> truncates towards zero. For a \<open>t\<close> outside the range of int64 Go
  leaves the result to the implementation: it is \<open>out_of_range t\<close>, any function.\<close>

definition float64_to_int64 :: "(rat \<Rightarrow> int64) \<Rightarrow> rat \<Rightarrow> int64" where
  "float64_to_int64 out_of_range t =
     (let n = (if 0 \<le> t then \<lfloor>t\<rfloor> else \<lceil>t\<rceil>)
      in if - (2 ^ 63) \<le> n \<and> n < 2 ^ 63 then word_of_int n else out_of_range t)"

text \<open>\<^verbatim>\<open>float64(i)\<close> rounds to the nearest float64.\<close>

definition int64_to_float64 :: "int64 \<Rightarrow> rat" where
  "int64_to_float64 i = round_float64 (of_int (sint i))"

subsection \<open>The decoder\<close>

text \<open>The values \<^verbatim>\<open>json.Unmarshal\<close> stores in an \<^verbatim>\<open>interface{}\<close>: nil, bool,
  float64, string, \<^verbatim>\<open>[]interface{}\<close> and \<^verbatim>\<open>map[string]interface{}\<close>.\<close>

datatype iface =
    INil
  | IBool bool
  | IFloat64 rat
  | IString string
  | ISlice "iface list"
  | IMap "string \<Rightarrow> iface option"

text \<open>A number past the range of float64 is an \<^verbatim>\<open>UnmarshalTypeError\<close>; the decoder goes
  on and returns the first such error at the end. In an object a later member replaces an
  earlier one with the same key.\<close>

fun valueInterface :: "json \<Rightarrow> error + iface"
  and arrayInterface :: "json list \<Rightarrow> error + iface list"
  and objectInterface :: "(string \<times> json) list \<Rightarrow> error + (string \<times> iface) list" where
  "valueInterface JNull = Inr INil"
| "valueInterface (JBool b) = Inr (IBool b)"
| "valueInterface (JNumber s) =
     (case ParseFloat s of
        None \<Rightarrow> Inl (UnmarshalTypeError (''number '' @ s))
      | Some f \<Rightarrow> Inr (IFloat64 f))"
| "valueInterface (JString raw) = Inr (IString (unquote raw))"
| "valueInterface (JArray es) =
     (case arrayInterface es of Inl err \<Rightarrow> Inl err | Inr vs \<Rightarrow> Inr (ISlice vs))"
| "valueInterface (JObject ms) =
     (case objectInterface ms of Inl err \<Rightarrow> Inl err | Inr kvs \<Rightarrow> Inr (IMap (map_of (rev kvs))))"
| "arrayInterface [] = Inr []"
| "arrayInterface (e # es) =
     (case valueInterface e of
        Inl err \<Rightarrow> Inl err
      | Inr v \<Rightarrow> (case arrayInterface es of Inl err \<Rightarrow> Inl err | Inr vs \<Rightarrow> Inr (v # vs)))"
| "objectInterface [] = Inr []"
| "objectInterface ((k, e) # ms) =
     (case valueInterface e of
        Inl err \<Rightarrow> Inl err
      | Inr v \<Rightarrow>
          (case objectInterface ms of Inl err \<Rightarrow> Inl err | Inr kvs \<Rightarrow> Inr ((unquote k, v) # kvs)))"

text \<open>\<^verbatim>\<open>json.Unmarshal(b, &jsonValueTimestamp)\<close> with a \<^verbatim>\<open>[]interface{}\<close> behind the
  pointer: a syntax error for an invalid text; the elements of an array; the nil slice
  for \<^verbatim>\<open>null\<close>; and a type error for any other value.\<close>

definition json_Unmarshal :: "string \<Rightarrow> error + iface list" where
  "json_Unmarshal b =
     (case scan b of
        Inl err \<Rightarrow> Inl err
      | Inr JNull \<Rightarrow> Inr []
      | Inr (JBool _) \<Rightarrow> Inl (UnmarshalTypeError ''bool'')
      | Inr (JNumber _) \<Rightarrow> Inl (UnmarshalTypeError ''number'')
      | Inr (JString _) \<Rightarrow> Inl (UnmarshalTypeError ''string'')
      | Inr (JArray es) \<Rightarrow> arrayInterface es
      | Inr (JObject _) \<Rightarrow> Inl (UnmarshalTypeError ''object''))"

subsection \<open>The encoder\<close>

definition hex :: "int \<Rightarrow> char" where
  "hex n = (if n < 10 then char_of (48 + n) else char_of (87 + n))"

text \<open>\<^verbatim>\<open>htmlSafeSet\<close>: the ASCII bytes written as they are.\<close>

definition htmlSafe :: "char \<Rightarrow> bool" where
  "htmlSafe c =
     (CHR 0x20 \<le> c \<and> (of_char c :: int) < 0x80 \<and>
      c \<notin> set [CHR 0x22, CHR ''&'', CHR ''<'', CHR ''>'', CHR 0x5C])"

definition escape :: "char \<Rightarrow> string" where
  "escape c =
     (if c = CHR 0x5C \<or> c = CHR 0x22 then [CHR 0x5C, c]
      else if c = CHR 0x08 then [CHR 0x5C, CHR ''b'']
      else if c = CHR 0x0C then [CHR 0x5C, CHR ''f'']
      else if c = CHR 0x0A then [CHR 0x5C, CHR ''n'']
      else if c = CHR 0x0D then [CHR 0x5C, CHR ''r'']
      else if c = CHR 0x09 then [CHR 0x5C, CHR ''t'']
      else [CHR 0x5C, CHR ''u'', CHR ''0'', CHR ''0'', hex (of_char c div 16), hex (of_char c mod 16)])"

text \<open>The loop of \<^verbatim>\<open>appendString\<close> with \<^verbatim>\<open>escapeHTML\<close> set, as
  \<^verbatim>\<open>json.Marshal\<close> calls it: a byte that starts no UTF-8 encoding is written as
  the escape of U+FFFD, and U+2028 and U+2029 are escaped.\<close>

function appendString_loop :: "string \<Rightarrow> string" where
  "appendString_loop [] = []"
| "appendString_loop (c # s) =
     (if (of_char c :: int) < 0x80 then
        (if htmlSafe c then c # appendString_loop s else escape c @ appendString_loop s)
      else
        (case DecodeRune (c # s) of
           (r, width) \<Rightarrow>
             if r = RuneError \<and> width = 1 then CHR 0x5C # ''ufffd'' @ appendString_loop s
             else if r = 0x2028 \<or> r = 0x2029 then
               CHR 0x5C # ''u202'' @ [hex (r mod 16)] @ appendString_loop (drop (width - 1) s)
             else take width (c # s) @ appendString_loop (drop (width - 1) s)))"
  by pat_completeness auto
termination
  by (relation "measure length") auto

definition appendString :: "string \<Rightarrow> string" where
  "appendString s = CHR 0x22 # appendString_loop s @ [CHR 0x22]"

subsection \<open>MarshalJSON and UnmarshalJSON\<close>

text \<open>\<^verbatim>\<open>json.Marshal([]interface{}{valueTimestamp.Value, valueTimestamp.Timestamp})\<close>:
  a nil pointer is \<^verbatim>\<open>null\<close>, a string is quoted, an int64 is written in decimal, and
  no error can arise for these two types.\<close>

definition MarshalJSON :: "ValueTimestamp \<Rightarrow> error + string" where
  "MarshalJSON valueTimestamp =
     Inr (''['' @ (case Value valueTimestamp of None \<Rightarrow> ''null'' | Some v \<Rightarrow> appendString v) @ '','' @
          fmt_d (Timestamp valueTimestamp) @ '']'')"

text \<open>The method works on the struct behind its receiver: the model takes the struct and
  returns it as the call leaves it, with the error returned (\<open>None\<close> for nil).\<close>

definition UnmarshalJSON ::
  "(rat \<Rightarrow> int64) \<Rightarrow> ValueTimestamp \<Rightarrow> string \<Rightarrow> ValueTimestamp \<times> error option" where
  "UnmarshalJSON out_of_range valueTimestamp b =
     (case json_Unmarshal b of
        Inl err \<Rightarrow> (valueTimestamp, Some err)
      | Inr jsonValueTimestamp \<Rightarrow>
          if length jsonValueTimestamp \<noteq> 2
          then (valueTimestamp, Some (Errorf (''expected [value,timestamp] from: '' @ b)))
          else
            (case
               (case jsonValueTimestamp ! 0 of
                  INil \<Rightarrow> Inr (valueTimestamp\<lparr>Value := None\<rparr>)
                | IString value \<Rightarrow> Inr (valueTimestamp\<lparr>Value := Some value\<rparr>)
                | _ \<Rightarrow> Inl (Errorf (''invalid value from: '' @ b)))
             of
               Inl err \<Rightarrow> (valueTimestamp, Some err)
             | Inr valueTimestamp' \<Rightarrow>
                 (case jsonValueTimestamp ! 1 of
                    IFloat64 t \<Rightarrow>
                      if int64_to_float64 (float64_to_int64 out_of_range t) \<noteq> t
                      then (valueTimestamp', Some (Errorf (''invalid timestamp from: '' @ b)))
                      else (valueTimestamp'\<lparr>Timestamp := float64_to_int64 out_of_range t\<rparr>, None)
                  | _ \<Rightarrow> (valueTimestamp', Some (Errorf (''invalid timestamp from: '' @ b))))))"

text \<open>One implementation's choice for \<^verbatim>\<open>int64(t)\<close> out of range: amd64's conversion
  instruction answers the least int64.\<close>

definition amd64_out_of_range :: "rat \<Rightarrow> int64" where
  "amd64_out_of_range t = - 9223372036854775808"

section \<open>Timestamp-gated mutation and Get\<close>

text \<open>
  Claim C2. \<^verbatim>\<open>SetTimestamped\<close> (and \<^verbatim>\<open>DeleteTimestamped\<close>, with a deletion
  marker in place of the value) inserts the Entry \<open>(value, t)\<close> when the key is absent,
  in a new struct: the other keys keep their pointers and no allocated struct changes. It
  overwrites the value and the timestamp of the existing Entry when its timestamp is
  strictly less than \<open>t\<close>, through the pointer the map already holds: the map stays as it
  is and no other struct changes. Otherwise it leaves the heap and the map exactly as they
  were. Neither function can fail: they return the new state and nothing else.
\<close>

theorem timestamp_gated_mutation:
  "(store key = None \<longrightarrow>
      (case SetTimestamped h store key val t of (h', store') \<Rightarrow>
         entry h' store' key = Some \<lparr>Value = Some val, Timestamp = t\<rparr> \<and>
         (\<forall>k. k \<noteq> key \<longrightarrow> store' k = store k) \<and>
         (\<forall>b. b < fresh h \<longrightarrow> cells h' b = cells h b)) \<and>
      (case DeleteTimestamped h store key t of (h', store') \<Rightarrow>
         entry h' store' key = Some \<lparr>Value = None, Timestamp = t\<rparr> \<and>
         (\<forall>k. k \<noteq> key \<longrightarrow> store' k = store k) \<and>
         (\<forall>b. b < fresh h \<longrightarrow> cells h' b = cells h b))) \<and>
   (\<forall>a. store key = Some (Some a) \<and> Timestamp (cells h a) <s t \<longrightarrow>
      (case SetTimestamped h store key val t of (h', store') \<Rightarrow>
         store' = store \<and> entry h' store' key = Some \<lparr>Value = Some val, Timestamp = t\<rparr> \<and>
         (\<forall>b. b \<noteq> a \<longrightarrow> cells h' b = cells h b)) \<and>
      (case DeleteTimestamped h store key t of (h', store') \<Rightarrow>
         store' = store \<and> entry h' store' key = Some \<lparr>Value = None, Timestamp = t\<rparr> \<and>
         (\<forall>b. b \<noteq> a \<longrightarrow> cells h' b = cells h b))) \<and>
   (\<forall>a. store key = Some (Some a) \<and> t \<le>s Timestamp (cells h a) \<longrightarrow>
      SetTimestamped h store key val t = (h, store) \<and>
      DeleteTimestamped h store key t = (h, store))"
  by (auto simp: SetTimestamped_def DeleteTimestamped_def index_def new_def entry_def
        word_sless_alt word_sle_eq split: option.splits)

theorem timestamp_gated_mutation_witness:
  "(case SetTimestamped purge_heap purge_store ''E'' ''five'' 5 of (h', store') \<Rightarrow>
      entry h' store' ''E'' = Some \<lparr>Value = Some ''five'', Timestamp = 5\<rparr> \<and>
      store' ''D'' = Some (Some 3) \<and> cells h' 3 = \<lparr>Value = Some ''one'', Timestamp = 1\<rparr>) \<and>
   (case DeleteTimestamped purge_heap purge_store ''E'' 5 of (h', store') \<Rightarrow>
      entry h' store' ''E'' = Some \<lparr>Value = None, Timestamp = 5\<rparr> \<and>
      store' ''D'' = Some (Some 3) \<and> cells h' 3 = \<lparr>Value = Some ''one'', Timestamp = 1\<rparr>) \<and>
   (case SetTimestamped purge_heap purge_store ''D'' ''two'' 2 of (h', store') \<Rightarrow>
      store' = purge_store \<and> entry h' store' ''D'' = Some \<lparr>Value = Some ''two'', Timestamp = 2\<rparr> \<and>
      cells h' 0 = cells purge_heap 0) \<and>
   (case DeleteTimestamped purge_heap purge_store ''D'' 2 of (h', store') \<Rightarrow>
      store' = purge_store \<and> entry h' store' ''D'' = Some \<lparr>Value = None, Timestamp = 2\<rparr> \<and>
      cells h' 0 = cells purge_heap 0) \<and>
   SetTimestamped purge_heap purge_store ''D'' ''two'' (- 3) = (purge_heap, purge_store) \<and>
   DeleteTimestamped purge_heap purge_store ''D'' (- 3) = (purge_heap, purge_store) \<and>
   SetTimestamped purge_heap purge_store ''D'' ''two'' 1 = (purge_heap, purge_store) \<and>
   DeleteTimestamped purge_heap purge_store ''D'' 1 = (purge_heap, purge_store)"
proof -
  have absent: "purge_store ''E'' = None"
    by (simp add: purge_store_def)
  have older: "purge_store ''D'' = Some (Some 3) \<and> Timestamp (cells purge_heap 3) <s 2"
    by (simp add: purge_store_def purge_heap_def word_sless_alt)
  have newer: "purge_store ''D'' = Some (Some 3) \<and> - 3 \<le>s Timestamp (cells purge_heap 3)"
    by (simp add: purge_store_def purge_heap_def word_sle_eq)
  have equal: "purge_store ''D'' = Some (Some 3) \<and> 1 \<le>s Timestamp (cells purge_heap 3)"
    by (simp add: purge_store_def purge_heap_def word_sle_eq)
  have other: "''D'' \<noteq> ''E''" "purge_store ''D'' = Some (Some 3)" "(3::nat) < fresh purge_heap"
    "cells purge_heap 3 = \<lparr>Value = Some ''one'', Timestamp = 1\<rparr>" "(0::nat) \<noteq> 3"
    by (simp_all add: purge_store_def purge_heap_def)
  note inserted =
    timestamp_gated_mutation [where store = purge_store and key = "''E''" and h = purge_heap
      and val = "''five''" and t = 5, THEN conjunct1, rule_format, OF absent]
  note overwritten =
    timestamp_gated_mutation [where store = purge_store and key = "''D''" and h = purge_heap
      and val = "''two''" and t = 2, THEN conjunct2, THEN conjunct1, rule_format, OF older]
  note discarded =
    timestamp_gated_mutation [where store = purge_store and key = "''D''" and h = purge_heap
      and val = "''two''" and t = "- 3", THEN conjunct2, THEN conjunct2, rule_format, OF newer]
  note tie =
    timestamp_gated_mutation [where store = purge_store and key = "''D''" and h = purge_heap
      and val = "''two''" and t = 1, THEN conjunct2, THEN conjunct2, rule_format, OF equal]
  show ?thesis
    using inserted overwritten discarded tie other
    by (auto split: prod.splits)
qed

text \<open>
  Claim C8. \<^verbatim>\<open>Get\<close> returns the stored value when the key maps to a live Entry, and
  the empty string when the key is absent or maps to a deletion marker; and after a
  \<^verbatim>\<open>DeleteTimestamped\<close> with a timestamp strictly newer than that of the live Entry
  of the key, \<^verbatim>\<open>Get\<close> returns the empty string for it.
\<close>

theorem Get_contract:
  "(store key = None \<longrightarrow> Get h store key = '''') \<and>
   (\<forall>a. store key = Some (Some a) \<and> Value (cells h a) = None \<longrightarrow> Get h store key = '''') \<and>
   (\<forall>a v. store key = Some (Some a) \<and> Value (cells h a) = Some v \<longrightarrow> Get h store key = v) \<and>
   (\<forall>a v. store key = Some (Some a) \<and> Value (cells h a) = Some v \<and> Timestamp (cells h a) <s t \<longrightarrow>
      (case DeleteTimestamped h store key t of (h', store') \<Rightarrow> Get h' store' key = ''''))"
  by (auto simp: Get_def DeleteTimestamped_def index_def)

theorem Get_contract_witness:
  "Get purge_heap purge_store ''E'' = '''' \<and>
   Get purge_heap purge_store ''A'' = '''' \<and>
   Get purge_heap purge_store ''D'' = ''one'' \<and>
   (case DeleteTimestamped purge_heap purge_store ''D'' 2 of (h', store') \<Rightarrow> Get h' store' ''D'' = '''')"
proof -
  have absent: "purge_store ''E'' = None"
    by (simp add: purge_store_def)
  have marker: "purge_store ''A'' = Some (Some 0) \<and> Value (cells purge_heap 0) = None"
    by (simp add: purge_store_def purge_heap_def)
  have live: "purge_store ''D'' = Some (Some 3) \<and> Value (cells purge_heap 3) = Some ''one''"
    by (simp add: purge_store_def purge_heap_def)
  have older: "purge_store ''D'' = Some (Some 3) \<and> Value (cells purge_heap 3) = Some ''one'' \<and>
      Timestamp (cells purge_heap 3) <s 2"
    by (simp add: purge_store_def purge_heap_def word_sless_alt)
  note c1 = Get_contract [where store = purge_store and key = "''E''" and h = purge_heap,
      THEN conjunct1, rule_format, OF absent]
  note c2 = Get_contract [where store = purge_store and key = "''A''" and h = purge_heap,
      THEN conjunct2, THEN conjunct1, rule_format, OF marker]
  note c3 = Get_contract [where store = purge_store and key = "''D''" and h = purge_heap,
      THEN conjunct2, THEN conjunct2, THEN conjunct1, rule_format, OF live]
  note c4 = Get_contract [where store = purge_store and key = "''D''" and h = purge_heap and t = 2,
      THEN conjunct2, THEN conjunct2, THEN conjunct2, rule_format, OF older]
  show ?thesis
    using c1 c2 c3 c4 by (intro conjI)
qed

text \<open>
  Claim C9. When \<^verbatim>\<open>SetTimestamped(key, "", t)\<close> installs its write (the key is absent,
  or its Entry is older than \<open>t\<close>), the stored Entry is live, with the empty string as its
  value and \<open>t\<close> as its timestamp, and \<^verbatim>\<open>Get(key)\<close> returns the empty string: what it
  returns in any store where the key is absent or maps to a deletion marker.
\<close>

theorem empty_value_reads_as_absent:
  "store key = None \<or> (\<exists>a. store key = Some (Some a) \<and> Timestamp (cells h a) <s t) \<Longrightarrow>
   (case SetTimestamped h store key '''' t of (h', store') \<Rightarrow>
      entry h' store' key = Some \<lparr>Value = Some '''', Timestamp = t\<rparr> \<and>
      Get h' store' key = '''' \<and>
      (\<forall>h2 store2 key2.
         store2 key2 = None \<or> (\<exists>a. store2 key2 = Some (Some a) \<and> Value (cells h2 a) = None) \<longrightarrow>
         Get h2 store2 key2 = Get h' store' key))"
  by (auto simp: Get_def SetTimestamped_def index_def new_def entry_def split: option.splits)

theorem empty_value_reads_as_absent_witness:
  "(case SetTimestamped purge_heap purge_store ''D'' '''' 2 of (h', store') \<Rightarrow>
      entry h' store' ''D'' = Some \<lparr>Value = Some '''', Timestamp = 2\<rparr> \<and>
      Get h' store' ''D'' = '''' \<and>
      Get purge_heap purge_store ''D'' = ''one'' \<and>
      Get purge_heap purge_store ''E'' = Get h' store' ''D'' \<and>
      Get purge_heap purge_store ''A'' = Get h' store' ''D'')"
proof -
  have older: "purge_store ''D'' = None \<or>
      (\<exists>a. purge_store ''D'' = Some (Some a) \<and> Timestamp (cells purge_heap a) <s 2)"
    by (simp add: purge_store_def purge_heap_def word_sless_alt)
  have before: "Get purge_heap purge_store ''D'' = ''one''"
    by (simp add: Get_def index_def purge_store_def purge_heap_def)
  have absent: "purge_store ''E'' = None"
    by (simp add: purge_store_def)
  have marker: "purge_store ''A'' = Some (Some 0) \<and> Value (cells purge_heap 0) = None"
    by (simp add: purge_store_def purge_heap_def)
  show ?thesis
    using empty_value_reads_as_absent [where store = purge_store and key = "''D''" and h = purge_heap
        and t = 2, OF older] before absent marker
    by (auto split: prod.splits)
qed

section \<open>Purge\<close>

text \<open>What the loop of \<^verbatim>\<open>Purge\<close> leaves, for any visiting order without repetition:
  a visited key is removed when its Entry is a deletion marker older than the cutoff.\<close>

lemma Purge_result:
  "distinct ks \<Longrightarrow> entries_present store \<Longrightarrow>
   Purge h store ks cutoff =
     Inr (\<lambda>key. if key \<in> set ks \<and>
                    (\<exists>a. store key = Some (Some a) \<and> Value (cells h a) = None \<and>
                         Timestamp (cells h a) <s cutoff)
                 then None else store key)"
proof (induction ks arbitrary: store)
  case Nil
  then show ?case by simp
next
  case (Cons key ks)
  show ?case
  proof (cases "store key")
    case None
    then show ?thesis using Cons by (auto simp: fun_eq_iff)
  next
    case (Some p)
    with Cons.prems obtain a where a: "store key = Some (Some a)"
      by (cases p) (auto simp: entries_present_def)
    show ?thesis
    proof (cases "Value (cells h a) = None \<and> Timestamp (cells h a) <s cutoff")
      case True
      have "entries_present (store(key := None))"
        using Cons.prems by (simp add: entries_present_def)
      then have "Purge h (store(key := None)) ks cutoff =
          Inr (\<lambda>k. if k \<in> set ks \<and>
                       (\<exists>a. (store(key := None)) k = Some (Some a) \<and> Value (cells h a) = None \<and>
                            Timestamp (cells h a) <s cutoff)
                    then None else (store(key := None)) k)"
        using Cons by simp
      then show ?thesis using a True Cons.prems by (auto simp: fun_eq_iff)
    next
      case False
      then show ?thesis using a Cons by (auto simp: fun_eq_iff)
    qed
  qed
qed

text \<open>
  Claim C6. For a store in which every key has an Entry and any order \<open>ks\<close> in which the
  loop visits its keys, \<^verbatim>\<open>Purge(cutoff)\<close> returns normally and removes exactly the keys
  whose Entry is a deletion marker with a timestamp strictly less than the cutoff: every
  other key keeps its pointer. In particular a deletion marker whose timestamp equals the
  cutoff stays, and a live Entry stays whatever its timestamp.
\<close>

theorem Purge_boundary:
  assumes "distinct ks" and "set ks = dom store" and "entries_present store"
  shows "\<exists>store'. Purge h store ks cutoff = Inr store' \<and>
    (\<forall>key. store' key =
       (if \<exists>a. store key = Some (Some a) \<and> Value (cells h a) = None \<and> Timestamp (cells h a) <s cutoff
        then None else store key)) \<and>
    (\<forall>key a. store key = Some (Some a) \<and> Value (cells h a) = None \<and> Timestamp (cells h a) = cutoff \<longrightarrow>
       store' key = Some (Some a)) \<and>
    (\<forall>key a v. store key = Some (Some a) \<and> Value (cells h a) = Some v \<longrightarrow> store' key = Some (Some a))"
proof -
  have in_ks: "key \<in> set ks" if "store key = Some p" for key p
    using that assms(2) by auto
  show ?thesis
    unfolding Purge_result [OF assms(1) assms(3)]
    by (auto dest: in_ks simp: word_sless_alt)
qed

theorem Purge_boundary_witness:
  "\<exists>store'. Purge purge_heap purge_store [''C'', ''A'', ''D'', ''B''] 1479726245000000006 = Inr store' \<and>
     store' ''A'' = None \<and> store' ''B'' = Some (Some 1) \<and> store' ''C'' = Some (Some 2) \<and>
     store' ''D'' = Some (Some 3) \<and> store' ''E'' = None"
proof -
  have ks: "distinct [''C'', ''A'', ''D'', ''B'']"
    by simp
  have keys: "set [''C'', ''A'', ''D'', ''B''] = dom purge_store"
    by (auto simp: purge_store_def)
  have present: "entries_present purge_store"
    by (simp add: entries_present_def purge_store_def)
  from Purge_boundary [OF ks keys present, of purge_heap 1479726245000000006]
  obtain store' where
    run: "Purge purge_heap purge_store [''C'', ''A'', ''D'', ''B''] 1479726245000000006 = Inr store'" and
    each: "\<And>key. store' key =
       (if \<exists>a. purge_store key = Some (Some a) \<and> Value (cells purge_heap a) = None \<and>
               Timestamp (cells purge_heap a) <s 1479726245000000006
        then None else purge_store key)"
    by blast
  have "store' ''A'' = None" "store' ''B'' = Some (Some 1)" "store' ''C'' = Some (Some 2)"
    "store' ''D'' = Some (Some 3)" "store' ''E'' = None"
    unfolding each by (simp_all add: purge_store_def purge_heap_def word_sless_alt)
  with run show ?thesis by blast
qed

section \<open>Absorb\<close>

text \<open>What the loop of \<^verbatim>\<open>Absorb\<close> leaves, for any visiting order without repetition.\<close>

lemma Absorb_result:
  "distinct ks \<Longrightarrow> entries_present store2 \<Longrightarrow>
   Absorb h store store2 ks =
     Inr (\<lambda>key. if key \<in> set ks then
                   (case store2 key of
                      None \<Rightarrow> store key
                    | Some p2 \<Rightarrow>
                        (case index store key of
                           None \<Rightarrow> Some p2
                         | Some a \<Rightarrow>
                             if Timestamp (cells h a) <s Timestamp (cells h (the p2))
                             then Some p2 else store key))
                 else store key)"
proof (induction ks arbitrary: store)
  case Nil
  then show ?case by simp
next
  case (Cons key ks)
  have fresh_key: "key \<notin> set ks" and rest: "distinct ks"
    using Cons.prems by auto
  note IH = Cons.IH [OF rest Cons.prems(2)]
  show ?case
  proof (cases "store2 key")
    case None
    then show ?thesis using IH [of store] by (auto simp: fun_eq_iff)
  next
    case (Some p2)
    with Cons.prems obtain a2 where a2: "store2 key = Some (Some a2)"
      by (cases p2) (auto simp: entries_present_def)
    show ?thesis
    proof (cases "index store key")
      case None
      then have "Absorb h store store2 (key # ks) = Absorb h (store(key \<mapsto> Some a2)) store2 ks"
        using a2 by simp
      also note IH [of "store(key \<mapsto> Some a2)"]
      finally show ?thesis
        using a2 fresh_key None by (auto simp: fun_eq_iff index_def split: option.splits)
    next
      case (Some a)
      show ?thesis
      proof (cases "Timestamp (cells h a) <s Timestamp (cells h a2)")
        case True
        then have "Absorb h store store2 (key # ks) = Absorb h (store(key \<mapsto> Some a2)) store2 ks"
          using a2 Some by simp
        also note IH [of "store(key \<mapsto> Some a2)"]
        finally show ?thesis
          using a2 fresh_key Some True by (auto simp: fun_eq_iff index_def split: option.splits)
      next
        case False
        then have "Absorb h store store2 (key # ks) = Absorb h store store2 ks"
          using a2 Some by simp
        also note IH [of store]
        finally show ?thesis
          using a2 fresh_key Some False by (auto simp: fun_eq_iff index_def split: option.splits)
      qed
    qed
  qed
qed

text \<open>
  Claim C3. For a donor in which every key has an Entry and any order \<open>ks\<close> in which the
  loop visits the donor's keys, \<^verbatim>\<open>Absorb\<close> returns normally, and per key of the donor
  the receiver ends with the donor's pointer exactly when the receiver lacked the key or its
  Entry had a strictly smaller timestamp; with an equal (or greater) timestamp the receiver
  keeps its own pointer. A key that the donor does not have keeps what it had.
\<close>

theorem Absorb_per_key:
  assumes "distinct ks" and "set ks = dom store2" and "entries_present store2"
  shows "\<exists>store'. Absorb h store store2 ks = Inr store' \<and>
    (\<forall>key. store2 key = None \<longrightarrow> store' key = store key) \<and>
    (\<forall>key a2. store2 key = Some (Some a2) \<and> store key = None \<longrightarrow> store' key = Some (Some a2)) \<and>
    (\<forall>key a a2. store2 key = Some (Some a2) \<and> store key = Some (Some a) \<and>
        Timestamp (cells h a) <s Timestamp (cells h a2) \<longrightarrow> store' key = Some (Some a2)) \<and>
    (\<forall>key a a2. store2 key = Some (Some a2) \<and> store key = Some (Some a) \<and>
        Timestamp (cells h a) = Timestamp (cells h a2) \<longrightarrow> store' key = Some (Some a)) \<and>
    (\<forall>key a a2. store2 key = Some (Some a2) \<and> store key = Some (Some a) \<and>
        Timestamp (cells h a2) \<le>s Timestamp (cells h a) \<longrightarrow> store' key = Some (Some a))"
proof -
  have in_ks: "key \<in> set ks" if "store2 key = Some p" for key p
    using that assms(2) by auto
  show ?thesis
    unfolding Absorb_result [OF assms(1) assms(3)]
    by (auto dest: in_ks simp: index_def word_sless_alt word_sle_eq)
qed

theorem Absorb_per_key_witness:
  "\<exists>store'. Absorb readme_heap readme_store1 readme_store2 [''F'', ''B'', ''G'', ''D'', ''E'', ''C''] = Inr store' \<and>
     store' ''A'' = Some (Some 0) \<and> store' ''B'' = Some (Some 5) \<and> store' ''C'' = Some (Some 6) \<and>
     store' ''D'' = Some (Some 7) \<and> store' ''E'' = Some (Some 3) \<and> store' ''F'' = Some (Some 4) \<and>
     store' ''G'' = Some (Some 10)"
proof -
  have ks: "distinct [''F'', ''B'', ''G'', ''D'', ''E'', ''C'']"
    by simp
  have keys: "set [''F'', ''B'', ''G'', ''D'', ''E'', ''C''] = dom readme_store2"
    by (auto simp: readme_store2_def)
  have present: "entries_present readme_store2"
    by (simp add: entries_present_def readme_store2_def)
  from Absorb_per_key [OF ks keys present, of readme_heap readme_store1]
  obtain store' where
    run: "Absorb readme_heap readme_store1 readme_store2 [''F'', ''B'', ''G'', ''D'', ''E'', ''C''] = Inr store'" and
    untouched: "\<And>key. readme_store2 key = None \<Longrightarrow> store' key = readme_store1 key" and
    lacking: "\<And>key a2. readme_store2 key = Some (Some a2) \<and> readme_store1 key = None \<Longrightarrow>
        store' key = Some (Some a2)" and
    older: "\<And>key a a2. readme_store2 key = Some (Some a2) \<and> readme_store1 key = Some (Some a) \<and>
        Timestamp (cells readme_heap a) <s Timestamp (cells readme_heap a2) \<Longrightarrow> store' key = Some (Some a2)" and
    tie: "\<And>key a a2. readme_store2 key = Some (Some a2) \<and> readme_store1 key = Some (Some a) \<and>
        Timestamp (cells readme_heap a) = Timestamp (cells readme_heap a2) \<Longrightarrow> store' key = Some (Some a)" and
    newer: "\<And>key a a2. readme_store2 key = Some (Some a2) \<and> readme_store1 key = Some (Some a) \<and>
        Timestamp (cells readme_heap a2) \<le>s Timestamp (cells readme_heap a) \<Longrightarrow> store' key = Some (Some a)"
    by blast
  have "store' ''A'' = Some (Some 0)"
    using untouched [of "''A''"] by (simp add: readme_store1_def readme_store2_def)
  moreover have "store' ''B'' = Some (Some 5)"
    using older [of "''B''" 5 1]
    by (simp add: readme_store1_def readme_store2_def readme_heap_def word_sless_alt)
  moreover have "store' ''C'' = Some (Some 6)"
    using older [of "''C''" 6 2]
    by (simp add: readme_store1_def readme_store2_def readme_heap_def word_sless_alt)
  moreover have "store' ''D'' = Some (Some 7)"
    using lacking [of "''D''" 7] by (simp add: readme_store1_def readme_store2_def)
  moreover have "store' ''E'' = Some (Some 3)"
    using newer [of "''E''" 8 3]
    by (simp add: readme_store1_def readme_store2_def readme_heap_def word_sle_eq)
  moreover have "store' ''F'' = Some (Some 4)"
    using newer [of "''F''" 9 4]
    by (simp add: readme_store1_def readme_store2_def readme_heap_def word_sle_eq)
  moreover have "store' ''G'' = Some (Some 10)"
    using tie [of "''G''" 11 10]
    by (simp add: readme_store1_def readme_store2_def readme_heap_def)
  ultimately show ?thesis using run by blast
qed

section \<open>Hash\<close>

lemma fnv_Write_append: "fnv_Write hash (bs @ cs) = fnv_Write (fnv_Write hash bs) cs"
  by (simp add: fnv_Write_def)

lemma fnv1a_64_Write: "fnv1a_64 bs = fnv_Write offset64 bs"
  by (simp add: fnv1a_64_def fnv_Write_def offset64_def prime64_def foldl_conv_fold)

lemma entry_present:
  assumes "entries_present store"
  shows "(entry h store key = None) = (store key = None)"
proof -
  have "store key \<noteq> Some None"
    using assms by (simp add: entries_present_def)
  then show ?thesis
    by (auto simp: entry_def index_def split: option.splits)
qed

lemma dom_timestamps: "entries_present store \<Longrightarrow> dom (timestamps h store) = dom store"
  by (auto simp: timestamps_def entry_present dom_def)

text \<open>The writes of the loop amount to one write of the concatenated records.\<close>

lemma Hash_write_records:
  "\<forall>k \<in> set ks. entry h store k \<noteq> None \<Longrightarrow>
   Hash_write h store hasher ks =
     Inr (fnv_Write hasher (concat (map (Hash_record (timestamps h store)) ks)))"
proof (induction ks arbitrary: hasher)
  case Nil
  then show ?case by (simp add: fnv_Write_def)
next
  case (Cons k ks)
  from Cons.prems obtain a where a: "index store k = Some a"
    by (auto simp: entry_def split: option.splits)
  have "Hash_record (timestamps h store) k = k @ [CHR 0x0A] @ fmt_d (Timestamp (cells h a)) @ [CHR 0x0A]"
    using a by (simp add: Hash_record_def timestamps_def entry_def)
  then show ?case
    using a Cons by (simp add: fnv_Write_def)
qed

lemma sort_range_order: "distinct ks \<Longrightarrow> sort ks = sorted_list_of_set (set ks)"
  by (simp add: sorted_list_of_set_sort_remdups distinct_remdups_id)

lemma Hash_refines_spec:
  assumes "distinct range_order" and "set range_order = dom store" and "entries_present store"
  shows "Hash h store range_order = Inr (Hash_spec (timestamps h store))"
proof -
  have "\<forall>k \<in> set (sort range_order). entry h store k \<noteq> None"
    using assms by (auto simp: entry_present)
  then have "Hash_write h store offset64 (sort range_order) =
      Inr (fnv_Write offset64 (concat (map (Hash_record (timestamps h store)) (sort range_order))))"
    by (rule Hash_write_records)
  moreover have "sort range_order = sorted_list_of_set (dom (timestamps h store))"
    using assms by (simp add: sort_range_order dom_timestamps)
  ultimately show ?thesis
    by (simp add: Hash_def Hash_spec_def fnv1a_64_Write)
qed

text \<open>
  Claim C7. For a store in which every key has an Entry and any order in which the first
  loop collects its keys, \<^verbatim>\<open>Hash\<close> returns the fingerprint the specification
  describes: the FNV-1a accumulator, 64 bits wide, over the records
  \<open>key, newline, decimal timestamp, newline\<close> of the keys in increasing order, printed as
  sixteen lower-case hexadecimal digits. So any other such store with the same keys and the
  same timestamp per key has the same fingerprint, whatever its values, its pointers and the
  order of its keys.
\<close>

theorem Hash_algorithm:
  assumes "distinct range_order" and "set range_order = dom store" and "entries_present store"
  shows "Hash h store range_order = Inr (Hash_spec (timestamps h store)) \<and>
    length (Hash_spec (timestamps h store)) = 16 \<and>
    (\<forall>h' store' range_order'.
       distinct range_order' \<and> set range_order' = dom store' \<and> entries_present store' \<and>
       timestamps h' store' = timestamps h store \<longrightarrow>
       Hash h' store' range_order' = Hash h store range_order)"
  using assms by (simp add: Hash_refines_spec) (simp add: Hash_spec_def fmt_016x_def)

theorem Hash_algorithm_witness:
  "Hash hash_heap hash_store1 [''B'', ''C'', ''A''] = Inr ''3d6a6976bcf5dfb9'' \<and>
   Hash_spec (timestamps hash_heap hash_store1) = ''3d6a6976bcf5dfb9'' \<and>
   Hash hash_heap hash_store2 [''C'', ''A'', ''B''] = Inr ''3d6a6976bcf5dfb9''"
proof -
  have order1: "distinct [''B'', ''C'', ''A'']" and order2: "distinct [''C'', ''A'', ''B'']"
    by simp_all
  have keys1: "set [''B'', ''C'', ''A''] = dom hash_store1"
    by (auto simp: hash_store1_def)
  have keys2: "set [''C'', ''A'', ''B''] = dom hash_store2"
    by (auto simp: hash_store2_def)
  have present1: "entries_present hash_store1"
    by (simp add: entries_present_def hash_store1_def)
  have present2: "entries_present hash_store2"
    by (simp add: entries_present_def hash_store2_def)
  have same: "timestamps hash_heap hash_store2 = timestamps hash_heap hash_store1"
    by (auto simp: fun_eq_iff timestamps_def entry_def index_def hash_store1_def hash_store2_def
        hash_heap_def)
  have run: "Hash hash_heap hash_store1 [''B'', ''C'', ''A''] = Inr ''3d6a6976bcf5dfb9''"
    by code_simp
  note algorithm = Hash_algorithm [OF order1 keys1 present1, of hash_heap]
  from algorithm run have spec: "Hash_spec (timestamps hash_heap hash_store1) = ''3d6a6976bcf5dfb9''"
    by simp
  from algorithm order2 keys2 present2 same
  have "Hash hash_heap hash_store2 [''C'', ''A'', ''B''] = Hash hash_heap hash_store1 [''B'', ''C'', ''A'']"
    by blast
  with run spec show ?thesis by simp
qed

section \<open>Absorb against the replay of the donor's writes\<close>

lemma overwrite_fields:
  "(r :: ValueTimestamp)\<lparr>Value := v, Timestamp := t\<rparr> = \<lparr>Value = v, Timestamp = t\<rparr>"
  by (cases r) simp

text \<open>Both writers do the same with the Entry they are given.\<close>

lemma write_entry_unfold:
  "write_entry h store key vt =
     (case index store key of
        None \<Rightarrow> (h\<lparr>cells := (cells h)(fresh h := vt), fresh := Suc (fresh h)\<rparr>, store(key \<mapsto> Some (fresh h)))
      | Some a \<Rightarrow>
          if Timestamp (cells h a) <s Timestamp vt
          then (h\<lparr>cells := (cells h)(a := vt)\<rparr>, store) else (h, store))"
  by (cases vt; cases "Value vt")
    (simp_all add: write_entry_def SetTimestamped_def DeleteTimestamped_def new_def overwrite_fields
      split: option.splits)

text \<open>One write when the receiver lacks the key: a new struct, which nothing else holds.\<close>

lemma write_entry_insert:
  assumes absent: "store key = None"
    and inv: "entries_present store" "allocated h store" "allocated h store2" "owned_by_key store store2"
    and w: "write_entry h store key vt = (h', store')"
  shows "entries_present store' \<and> allocated h' store' \<and> allocated h' store2 \<and>
    owned_by_key store' store2 \<and>
    (\<forall>k. entry h' store2 k = entry h store2 k) \<and>
    (\<forall>k. k \<noteq> key \<longrightarrow> entry h' store' k = entry h store k) \<and>
    entry h' store' key = Some vt"
proof -
  have h': "h' = h\<lparr>cells := (cells h)(fresh h := vt), fresh := Suc (fresh h)\<rparr>"
    and store': "store' = store(key \<mapsto> Some (fresh h))"
    using w absent by (simp_all add: write_entry_unfold index_def)
  have old: "a \<noteq> fresh h" if "store k = Some (Some a) \<or> store2 k = Some (Some a)" for k a
    using that inv(2,3) by (auto simp: allocated_def)
  have "entries_present store'"
    using inv(1) by (simp add: entries_present_def store')
  moreover have "allocated h' store'" "allocated h' store2"
    using inv(2,3) by (auto simp: allocated_def h' store' less_Suc_eq)
  moreover have "owned_by_key store' store2"
    using inv(4) old unfolding owned_by_key_def store'
    by (auto split: if_splits) blast+
  moreover have "entry h' store2 k = entry h store2 k" for k
    using old [of k] by (auto simp: entry_def index_def h' split: option.splits)
  moreover have "entry h' store' k = entry h store k" if "k \<noteq> key" for k
    using old [of k] that by (auto simp: entry_def index_def h' store' split: option.splits)
  moreover have "entry h' store' key = Some vt"
    by (simp add: entry_def index_def h' store')
  ultimately show ?thesis by blast
qed

text \<open>One write when the receiver has the key: its struct is overwritten in place when it
  is older, and that struct belongs to this key alone.\<close>

lemma write_entry_update:
  assumes present: "store key = Some (Some a)" and donor: "store2 key = Some (Some a2)"
    and inv: "entries_present store" "allocated h store" "allocated h store2" "owned_by_key store store2"
    and w: "write_entry h store key (cells h a2) = (h', store')"
  shows "entries_present store' \<and> allocated h' store' \<and> allocated h' store2 \<and>
    owned_by_key store' store2 \<and>
    (\<forall>k. entry h' store2 k = entry h store2 k) \<and>
    (\<forall>k. k \<noteq> key \<longrightarrow> entry h' store' k = entry h store k) \<and>
    entry h' store' key =
      (if Timestamp (cells h a) <s Timestamp (cells h a2) then Some (cells h a2) else Some (cells h a))"
proof (cases "Timestamp (cells h a) <s Timestamp (cells h a2)")
  case False
  then have "h' = h" "store' = store"
    using w present by (simp_all add: write_entry_unfold index_def)
  then show ?thesis
    using inv present False by (simp add: entry_def index_def)
next
  case True
  then have h': "h' = h\<lparr>cells := (cells h)(a := cells h a2)\<rparr>" and store': "store' = store"
    using w present by (simp_all add: write_entry_unfold index_def)
  have differ: "a2 \<noteq> a"
    using True by (auto simp: word_sless_alt)
  have mine: "k = key" if "store k = Some (Some a) \<or> store2 k = Some (Some a)" for k
    using that inv(4) present unfolding owned_by_key_def by blast
  have theirs: "b \<noteq> a" if "store2 k = Some (Some b)" for k b
    using that mine [of k] donor differ by auto
  have others: "b \<noteq> a" if "store k = Some (Some b)" "k \<noteq> key" for k b
    using that mine [of k] by auto
  have "allocated h' store'" "allocated h' store2"
    using inv(2,3) by (simp_all add: allocated_def h' store')
  moreover have "entry h' store2 k = entry h store2 k" for k
    using theirs [of k] by (auto simp: entry_def index_def h' split: option.splits)
  moreover have "entry h' store' k = entry h store k" if "k \<noteq> key" for k
    using others [of k] that by (auto simp: entry_def index_def h' store' split: option.splits)
  moreover have "entry h' store' key = Some (cells h a2)"
    using present by (simp add: entry_def index_def h' store')
  ultimately show ?thesis
    using inv(1,4) True store' by simp
qed

lemma write_entry_step:
  assumes donor: "store2 key = Some (Some a2)"
    and inv: "entries_present store" "allocated h store" "allocated h store2" "owned_by_key store store2"
    and w: "write_entry h store key (cells h a2) = (h', store')"
  shows "entries_present store' \<and> allocated h' store' \<and> allocated h' store2 \<and>
    owned_by_key store' store2 \<and>
    (\<forall>k. entry h' store2 k = entry h store2 k) \<and>
    (\<forall>k. k \<noteq> key \<longrightarrow> entry h' store' k = entry h store k) \<and>
    entry h' store' key = newest (entry h store key) (entry h store2 key)"
proof (cases "store key")
  case None
  then show ?thesis
    using write_entry_insert [OF None inv w] donor inv
    by (simp add: newest_def entry_def index_def)
next
  case (Some p)
  then obtain a where a: "store key = Some (Some a)"
    using inv(1) by (cases p) (auto simp: entries_present_def)
  show ?thesis
    using write_entry_update [OF a donor inv w] donor a
    by (simp add: newest_def entry_def index_def)
qed

text \<open>The replay, for any order without repetition: every visited key ends with the newest of
  the two entries, and the others keep theirs.\<close>

lemma replay_result:
  assumes "distinct ks" and "entries_present store2"
    and "entries_present store" "allocated h store" "allocated h store2" "owned_by_key store store2"
  shows "\<exists>h' store'. replay h store store2 ks = Inr (h', store') \<and> entries_present store' \<and>
    (\<forall>k. entry h' store' k =
       (if k \<in> set ks then newest (entry h store k) (entry h store2 k) else entry h store k))"
  using assms
proof (induction ks arbitrary: h store)
  case Nil
  then show ?case by simp
next
  case (Cons key ks)
  have fresh_key: "key \<notin> set ks" and rest: "distinct ks"
    using Cons.prems(1) by auto
  show ?case
  proof (cases "store2 key")
    case None
    then have absent: "entry h store2 key = None"
      by (simp add: entry_def index_def)
    from Cons.IH [OF rest Cons.prems(2-6)]
    obtain h' store' where run: "replay h store store2 ks = Inr (h', store')"
      and present: "entries_present store'"
      and each: "\<And>k. entry h' store' k =
        (if k \<in> set ks then newest (entry h store k) (entry h store2 k) else entry h store k)"
      by blast
    have "replay h store store2 (key # ks) = Inr (h', store')"
      using None run by simp
    moreover have "entry h' store' k =
        (if k \<in> set (key # ks) then newest (entry h store k) (entry h store2 k) else entry h store k)" for k
      using each [of k] absent fresh_key by (auto simp: newest_def)
    ultimately show ?thesis
      using present by blast
  next
    case (Some p2)
    then obtain a2 where a2: "store2 key = Some (Some a2)"
      using Cons.prems(2) by (cases p2) (auto simp: entries_present_def)
    obtain h1 store1 where w: "write_entry h store key (cells h a2) = (h1, store1)"
      by (cases "write_entry h store key (cells h a2)")
    note step = write_entry_step [OF a2 Cons.prems(3-6) w]
    from step have inv1: "entries_present store1" "allocated h1 store1" "allocated h1 store2"
      "owned_by_key store1 store2"
      by blast+
    from step have donor1: "\<And>k. entry h1 store2 k = entry h store2 k"
      and other1: "\<And>k. k \<noteq> key \<Longrightarrow> entry h1 store1 k = entry h store k"
      and key1: "entry h1 store1 key = newest (entry h store key) (entry h store2 key)"
      by blast+
    from Cons.IH [OF rest Cons.prems(2) inv1]
    obtain h' store' where run: "replay h1 store1 store2 ks = Inr (h', store')"
      and present: "entries_present store'"
      and each: "\<And>k. entry h' store' k =
        (if k \<in> set ks then newest (entry h1 store1 k) (entry h1 store2 k) else entry h1 store1 k)"
      by blast
    have "replay h store store2 (key # ks) = Inr (h', store')"
      using a2 w run by simp
    moreover have "entry h' store' k =
        (if k \<in> set (key # ks) then newest (entry h store k) (entry h store2 k) else entry h store k)" for k
    proof (cases "k = key")
      case True
      then show ?thesis using each [of k] fresh_key key1 by simp
    next
      case False
      then show ?thesis using each [of k] other1 [of k] donor1 [of k] by simp
    qed
    ultimately show ?thesis
      using present by blast
  qed
qed

text \<open>\<^verbatim>\<open>Absorb\<close> in the same terms.\<close>

lemma Absorb_newest:
  assumes "distinct ks" and "set ks = dom store2" and "entries_present store2"
    and "entries_present store"
  shows "\<exists>store'. Absorb h store store2 ks = Inr store' \<and> entries_present store' \<and>
    (\<forall>k. entry h store' k = newest (entry h store k) (entry h store2 k))"
proof -
  let ?store' = "\<lambda>key. if key \<in> set ks then
                   (case store2 key of
                      None \<Rightarrow> store key
                    | Some p2 \<Rightarrow>
                        (case index store key of
                           None \<Rightarrow> Some p2
                         | Some a \<Rightarrow>
                             if Timestamp (cells h a) <s Timestamp (cells h (the p2))
                             then Some p2 else store key))
                 else store key"
  have run: "Absorb h store store2 ks = Inr ?store'"
    by (rule Absorb_result [OF assms(1) assms(3)])
  have no_nil: "store k \<noteq> Some None" "store2 k \<noteq> Some None" for k
    using assms(3,4) by (simp_all add: entries_present_def)
  have in_ks: "k \<in> set ks" if "store2 k = Some p" for k p
    using that assms(2) by auto
  have "?store' k \<noteq> Some None" for k
    using no_nil [of k] by (auto simp: index_def split: option.splits)
  then have "entries_present ?store'"
    unfolding entries_present_def by blast
  moreover have "entry h ?store' k = newest (entry h store k) (entry h store2 k)" for k
    using no_nil [of k] in_ks [of k]
    by (cases "store2 k"; cases "store k")
      (auto simp: entry_def index_def newest_def split: option.splits)
  ultimately show ?thesis
    using run by blast
qed

lemma timestamps_of_entries:
  "(\<And>k. entry h' store' k = entry h store k) \<Longrightarrow> timestamps h' store' = timestamps h store"
  by (simp add: timestamps_def fun_eq_iff)

lemma dom_of_entries:
  assumes "entries_present store'" and "entries_present store"
    and "\<And>k. entry h' store' k = entry h store k"
  shows "dom store' = dom store"
proof -
  have "(store' k = None) = (store k = None)" for k
    using assms(3) [of k] entry_present [OF assms(1), of h' k] entry_present [OF assms(2), of h k]
    by simp
  then show ?thesis
    by (auto simp: dom_def)
qed

text \<open>
  Claim C4. Take a receiver and a donor in which every key has an Entry, every pointer is
  allocated and an Entry object is owned by a single key (the data model's invariants), any
  order \<open>ks\<close> in which \<^verbatim>\<open>Absorb\<close> visits the donor's keys and any order \<open>ks'\<close> in
  which the donor's entries are replayed one by one, with \<^verbatim>\<open>SetTimestamped\<close> for a
  live Entry and \<^verbatim>\<open>DeleteTimestamped\<close> for a deletion marker. Both return normally,
  and the two receivers have the same keys, the same Entry (value or deletion marker, and
  timestamp) under every key, and the same \<^verbatim>\<open>Hash\<close>.
\<close>

theorem Absorb_equals_replay:
  assumes "distinct ks" and "set ks = dom store2" and "distinct ks'" and "set ks' = dom store2"
    and "entries_present store" and "entries_present store2"
    and "allocated h store" and "allocated h store2" and "owned_by_key store store2"
  shows "\<exists>absorbed h' replayed.
    Absorb h store store2 ks = Inr absorbed \<and>
    replay h store store2 ks' = Inr (h', replayed) \<and>
    dom replayed = dom absorbed \<and>
    (\<forall>key. entry h' replayed key = entry h absorbed key) \<and>
    (\<forall>order order'.
       distinct order \<and> set order = dom absorbed \<and> distinct order' \<and> set order' = dom replayed \<longrightarrow>
       Hash h' replayed order' = Hash h absorbed order)"
proof -
  from Absorb_newest [OF assms(1,2,6,5), of h]
  obtain absorbed where a: "Absorb h store store2 ks = Inr absorbed"
    and a_present: "entries_present absorbed"
    and a_each: "\<And>k. entry h absorbed k = newest (entry h store k) (entry h store2 k)"
    by blast
  from replay_result [OF assms(3,6,5,7,8,9)]
  obtain h' replayed where r: "replay h store store2 ks' = Inr (h', replayed)"
    and r_present: "entries_present replayed"
    and r_each: "\<And>k. entry h' replayed k =
      (if k \<in> set ks' then newest (entry h store k) (entry h store2 k) else entry h store k)"
    by blast
  have same: "entry h' replayed k = entry h absorbed k" for k
  proof (cases "k \<in> set ks'")
    case True
    then show ?thesis by (simp add: r_each a_each)
  next
    case False
    then have "store2 k = None"
      using assms(4) by auto
    then have "entry h store2 k = None"
      by (simp add: entry_def index_def)
    then show ?thesis
      using False by (simp add: r_each a_each newest_def)
  qed
  have keys: "dom replayed = dom absorbed"
    using r_present a_present same by (rule dom_of_entries)
  have "Hash h' replayed order' = Hash h absorbed order"
    if "distinct order" "set order = dom absorbed" "distinct order'" "set order' = dom replayed"
    for order order'
    using that a_present r_present timestamps_of_entries [of h' replayed h absorbed, OF same]
    by (simp add: Hash_refines_spec)
  with a r keys same show ?thesis
    by blast
qed

theorem Absorb_equals_replay_witness:
  "\<exists>absorbed h' replayed.
     Absorb readme_heap readme_store1 readme_store2 [''F'', ''B'', ''G'', ''D'', ''E'', ''C''] = Inr absorbed \<and>
     replay readme_heap readme_store1 readme_store2 [''C'', ''D'', ''E'', ''F'', ''G'', ''B''] = Inr (h', replayed) \<and>
     dom replayed = dom absorbed \<and>
     (\<forall>key. entry h' replayed key = entry readme_heap absorbed key) \<and>
     entry h' replayed ''C'' = Some \<lparr>Value = Some ''four'', Timestamp = 3\<rparr> \<and>
     entry h' replayed ''E'' = Some \<lparr>Value = Some ''eight'', Timestamp = 7\<rparr> \<and>
     Hash h' replayed [''A'', ''B'', ''C'', ''D'', ''E'', ''F'', ''G''] =
       Hash readme_heap absorbed [''G'', ''F'', ''E'', ''D'', ''C'', ''B'', ''A'']"
proof -
  have ks: "distinct [''F'', ''B'', ''G'', ''D'', ''E'', ''C'']"
    and ks': "distinct [''C'', ''D'', ''E'', ''F'', ''G'', ''B'']"
    by simp_all
  have keys: "set [''F'', ''B'', ''G'', ''D'', ''E'', ''C''] = dom readme_store2"
    and keys': "set [''C'', ''D'', ''E'', ''F'', ''G'', ''B''] = dom readme_store2"
    by (auto simp: readme_store2_def)
  have present: "entries_present readme_store1" "entries_present readme_store2"
    by (simp_all add: entries_present_def readme_store1_def readme_store2_def)
  have alloc: "allocated readme_heap readme_store1" "allocated readme_heap readme_store2"
    by (auto simp: allocated_def readme_store1_def readme_store2_def readme_heap_def
        split: if_splits)
  have owned: "owned_by_key readme_store1 readme_store2"
    by (auto simp: owned_by_key_def readme_store1_def readme_store2_def split: if_splits)
  from Absorb_equals_replay [OF ks keys ks' keys' present alloc owned]
  obtain absorbed h' replayed where
    a: "Absorb readme_heap readme_store1 readme_store2 [''F'', ''B'', ''G'', ''D'', ''E'', ''C''] = Inr absorbed"
    and r: "replay readme_heap readme_store1 readme_store2 [''C'', ''D'', ''E'', ''F'', ''G'', ''B''] = Inr (h', replayed)"
    and d: "dom replayed = dom absorbed"
    and e: "\<And>key. entry h' replayed key = entry readme_heap absorbed key"
    and hash: "\<And>order order'. distinct order \<and> set order = dom absorbed \<and> distinct order' \<and>
        set order' = dom replayed \<Longrightarrow> Hash h' replayed order' = Hash readme_heap absorbed order"
    by blast
  have "Absorb readme_heap readme_store1 readme_store2 [''F'', ''B'', ''G'', ''D'', ''E'', ''C''] =
      Inr (readme_store1(''B'' \<mapsto> Some 5, ''D'' \<mapsto> Some 7, ''C'' \<mapsto> Some 6))"
    by (simp add: readme_store1_def readme_store2_def readme_heap_def index_def word_sless_alt)
  with a have absorbed: "absorbed = readme_store1(''B'' \<mapsto> Some 5, ''D'' \<mapsto> Some 7, ''C'' \<mapsto> Some 6)"
    by simp
  have c: "entry readme_heap absorbed ''C'' = Some \<lparr>Value = Some ''four'', Timestamp = 3\<rparr>"
    and e8: "entry readme_heap absorbed ''E'' = Some \<lparr>Value = Some ''eight'', Timestamp = 7\<rparr>"
    by (simp_all add: absorbed entry_def index_def readme_store1_def readme_heap_def)
  have all: "dom absorbed = set [''G'', ''F'', ''E'', ''D'', ''C'', ''B'', ''A'']"
    by (auto simp: absorbed readme_store1_def)
  have "Hash h' replayed [''A'', ''B'', ''C'', ''D'', ''E'', ''F'', ''G''] =
      Hash readme_heap absorbed [''G'', ''F'', ''E'', ''D'', ''C'', ''B'', ''A'']"
    by (rule hash) (auto simp: d all)
  with a r d e c e8 show ?thesis
    by (intro exI [of _ absorbed] exI [of _ h'] exI [of _ replayed]) simp
qed

section \<open>Timestamps never go back\<close>

lemma SetTimestamped_write_entry:
  "SetTimestamped h store key val t = write_entry h store key \<lparr>Value = Some val, Timestamp = t\<rparr>"
  by (simp add: write_entry_def)

lemma DeleteTimestamped_write_entry:
  "DeleteTimestamped h store key t = write_entry h store key \<lparr>Value = None, Timestamp = t\<rparr>"
  by (simp add: write_entry_def)

lemma sle_refl: "(t :: int64) \<le>s t"
  by (simp add: word_sle_eq)

lemma sle_trans: "(t :: int64) \<le>s u \<Longrightarrow> u \<le>s v \<Longrightarrow> t \<le>s v"
  by (simp add: word_sle_eq)

lemma sless_sle: "(t :: int64) <s u \<Longrightarrow> t \<le>s u"
  by (simp add: word_sle_eq word_sless_alt)

text \<open>A write leaves every pointer of its store where it was, unless the key was without an
  Entry; it allocates at most one struct, and no allocated struct gets an older timestamp.\<close>

lemma write_entry_monotone:
  assumes "write_entry h store key vt = (h', store')"
  shows "fresh h \<le> fresh h'"
    and "b < fresh h \<Longrightarrow> Timestamp (cells h b) \<le>s Timestamp (cells h' b)"
    and "index store k \<noteq> None \<Longrightarrow> store' k = store k"
    and "store' k = store k \<or> store' k = Some (Some (fresh h)) \<and> fresh h < fresh h'"
proof -
  note w = assms [unfolded write_entry_unfold]
  show "fresh h \<le> fresh h'"
    using w by (auto split: option.splits if_splits)
  show "Timestamp (cells h b) \<le>s Timestamp (cells h' b)" if "b < fresh h"
    using w that by (auto simp: sle_refl sless_sle split: option.splits if_splits)
  show "store' k = store k" if "index store k \<noteq> None"
    using w that by (auto split: option.splits if_splits)
  show "store' k = store k \<or> store' k = Some (Some (fresh h)) \<and> fresh h < fresh h'"
    using w by (auto split: option.splits if_splits)
qed

text \<open>\<^verbatim>\<open>Purge\<close> removes keys and changes no pointer, in any order, with or without
  repetition.\<close>

lemma Purge_keeps:
  "Purge h store ks cutoff = Inr store' \<Longrightarrow> store' k = store k \<or> store' k = None"
proof (induction ks arbitrary: store)
  case Nil
  then show ?case by simp
next
  case (Cons key ks)
  then show ?case
    by (fastforce split: option.splits if_splits)
qed

text \<open>\<^verbatim>\<open>Absorb\<close> replaces a pointer of the receiver by one of the donor, and only by
  one that leads to a newer struct when the receiver had an Entry.\<close>

lemma moved_forward_refl: "moved_forward h p p"
  by (simp add: moved_forward_def)

lemma moved_forward_trans:
  "moved_forward h p p' \<Longrightarrow> moved_forward h p' p'' \<Longrightarrow> moved_forward h p p''"
  unfolding moved_forward_def by (auto intro: sle_trans)

lemma Absorb_moves_forward:
  "Absorb h store store2 ks = Inr store' \<Longrightarrow>
   moved_forward h (store k) (store' k) \<and> (store' k = store k \<or> store' k = store2 k)"
proof (induction ks arbitrary: store)
  case Nil
  then show ?case by (simp add: moved_forward_refl)
next
  case (Cons key ks)
  show ?case
  proof (cases "store2 key")
    case None
    then show ?thesis using Cons by simp
  next
    case (Some p2)
    show ?thesis
    proof (cases "index store key")
      case None
      then have run: "Absorb h (store(key \<mapsto> p2)) store2 ks = Inr store'"
        using Cons.prems Some by simp
      have first: "moved_forward h (store k) ((store(key \<mapsto> p2)) k)"
        using None by (auto simp: moved_forward_def index_def split: option.splits)
      from Cons.IH [OF run] first Some show ?thesis
        by (auto intro: moved_forward_trans split: if_splits)
    next
      case (Some a)
      then obtain a2 where p2: "p2 = Some a2"
        using Cons.prems \<open>store2 key = Some p2\<close> by (cases p2) auto
      show ?thesis
      proof (cases "Timestamp (cells h a) <s Timestamp (cells h a2)")
        case True
        then have run: "Absorb h (store(key \<mapsto> p2)) store2 ks = Inr store'"
          using Cons.prems \<open>store2 key = Some p2\<close> Some p2 by simp
        have first: "moved_forward h (store k) ((store(key \<mapsto> p2)) k)"
          using Some True p2
          by (auto simp: moved_forward_def index_def sless_sle split: option.splits)
        from Cons.IH [OF run] first \<open>store2 key = Some p2\<close> show ?thesis
          by (auto intro: moved_forward_trans split: if_splits)
      next
        case False
        then have "Absorb h store store2 ks = Inr store'"
          using Cons.prems \<open>store2 key = Some p2\<close> Some p2 by simp
        then show ?thesis by (rule Cons.IH)
      qed
    qed
  qed
qed

lemma timestamp_at_Some:
  "(timestamp_at w i key = Some t) =
   (\<exists>a. stores w i key = Some (Some a) \<and> t = Timestamp (cells (memory w) a))"
  by (auto simp: timestamp_at_def timestamps_def entry_def index_def split: option.splits)

text \<open>One call of a writer, seen from any store of the world.\<close>

lemma write_step_monotone:
  assumes wf: "well_formed w"
    and w: "write_entry (memory w) (stores w j) key vt = (h', store')"
    and w': "w' = \<lparr>memory = h', stores = (stores w)(j := store')\<rparr>"
  shows "well_formed w'"
    and "timestamp_at w i k = Some t \<Longrightarrow> timestamp_at w' i k = Some t' \<Longrightarrow> t \<le>s t'"
proof -
  note m = write_entry_monotone [OF w]
  have alloc: "a < fresh (memory w)" if "stores w x k = Some (Some a)" for x k a
    using wf that by (auto simp: well_formed_def allocated_def)
  show "well_formed w'"
    unfolding well_formed_def allocated_def
  proof (intro allI impI)
    fix x k a
    assume held: "stores w' x k = Some (Some a)"
    show "a < fresh (memory w')"
    proof (cases "x = j \<and> store' k \<noteq> stores w j k")
      case True
      then show ?thesis using held m(4) [of k] by (auto simp: w')
    next
      case False
      then have "stores w x k = Some (Some a)"
        using held by (auto simp: w' split: if_splits)
      then show ?thesis using alloc m(1) by (fastforce simp: w')
    qed
  qed
  show "t \<le>s t'" if before: "timestamp_at w i k = Some t" and after: "timestamp_at w' i k = Some t'"
  proof -
    from before obtain a where a: "stores w i k = Some (Some a)"
      and t: "t = Timestamp (cells (memory w) a)"
      by (auto simp: timestamp_at_Some)
    have "index (stores w i) k \<noteq> None"
      using a by (simp add: index_def)
    then have "stores w' i k = Some (Some a)"
      using a m(3) [of k] by (auto simp: w')
    then have "t' = Timestamp (cells h' a)"
      using after by (auto simp: timestamp_at_Some w')
    then show ?thesis
      using m(2) [of a] alloc [OF a] t by simp
  qed
qed






section \<open>The JSON codec\<close>

text \<open>The codec on the inputs of the package's tests: the five malformed texts of
  \<^verbatim>\<open>TestValueTimestampUnmarshalJunk\<close> to \<^verbatim>\<open>TestValueTimestampUnmarshalJunk5\<close> with
  the error messages the tests expect, and the two Entries of
  \<^verbatim>\<open>ExampleValueTimestamp_MarshalJSON\<close> and \<^verbatim>\<open>ExampleValueTimestamp_UnmarshalJSON\<close>,
  encoded and decoded as the examples print them.\<close>

lemma codec_on_package_tests:
  "snd (UnmarshalJSON amd64_out_of_range \<lparr>Value = None, Timestamp = 0\<rparr> ''ksjdflksjdf;lsdkjf;'') = Some SyntaxError"
  "UnmarshalJSON amd64_out_of_range \<lparr>Value = None, Timestamp = 0\<rparr> ''[1,2,3]'' =
     (\<lparr>Value = None, Timestamp = 0\<rparr>, Some (Errorf ''expected [value,timestamp] from: [1,2,3]''))"
  "UnmarshalJSON amd64_out_of_range \<lparr>Value = None, Timestamp = 0\<rparr> ''[1,2]'' =
     (\<lparr>Value = None, Timestamp = 0\<rparr>, Some (Errorf ''invalid value from: [1,2]''))"
  "snd (UnmarshalJSON amd64_out_of_range \<lparr>Value = None, Timestamp = 0\<rparr> ''[\"one\",\"two\"]'') =
     Some (Errorf ''invalid timestamp from: [\"one\",\"two\"]'')"
  "snd (UnmarshalJSON amd64_out_of_range \<lparr>Value = None, Timestamp = 0\<rparr> ''[\"one\",2.1]'') =
     Some (Errorf ''invalid timestamp from: [\"one\",2.1]'')"
  "MarshalJSON \<lparr>Value = Some ''one'', Timestamp = 1\<rparr> = Inr ''[\"one\",1]''"
  "MarshalJSON \<lparr>Value = None, Timestamp = 2\<rparr> = Inr ''[null,2]''"
  "UnmarshalJSON amd64_out_of_range \<lparr>Value = None, Timestamp = 0\<rparr> ''[\"one\",1]'' =
     (\<lparr>Value = Some ''one'', Timestamp = 1\<rparr>, None)"
  "UnmarshalJSON amd64_out_of_range \<lparr>Value = None, Timestamp = 0\<rparr> ''[null,2]'' =
     (\<lparr>Value = None, Timestamp = 2\<rparr>, None)"
  by code_simp+

text \<open>
  Claim C1, at the timestamp of the package's own examples,
  \<^verbatim>\<open>time.Date(2017, 1, 2, 3, 4, 5, 6, time.UTC).UnixNano()\<close>: the deletion marker
  with that timestamp is encoded as \<^verbatim>\<open>[null,1483326245000000006]\<close>, and decoding
  this text returns no error and another timestamp, the float64 nearest to it. So the round
  trip does not give the Entry back.
\<close>

theorem roundtrip_loses_timestamp:
  "MarshalJSON \<lparr>Value = None, Timestamp = 1483326245000000006\<rparr> = Inr ''[null,1483326245000000006]'' \<and>
   UnmarshalJSON amd64_out_of_range \<lparr>Value = None, Timestamp = 0\<rparr> ''[null,1483326245000000006]'' =
     (\<lparr>Value = None, Timestamp = 1483326245000000000\<rparr>, None)"
  by code_simp




section \<open>The invariants hold in every store built through the operations\<close>

lemma Purge_returns:
  "entries_present store \<Longrightarrow> \<exists>store'. Purge h store ks cutoff = Inr store'"
proof (induction ks arbitrary: store)
  case Nil
  then show ?case by simp
next
  case (Cons key ks)
  have no_nil: "store key \<noteq> Some None"
    using Cons.prems by (simp add: entries_present_def)
  have "entries_present (store(key := None))"
    using Cons.prems by (simp add: entries_present_def)
  then obtain purged where purged: "Purge h (store(key := None)) ks cutoff = Inr purged"
    using Cons.IH by blast
  obtain kept where kept: "Purge h store ks cutoff = Inr kept"
    using Cons.IH [OF Cons.prems] by blast
  show ?case
    using no_nil purged kept by (auto split: option.splits)
qed

lemma Absorb_returns:
  "entries_present store2 \<Longrightarrow> \<exists>store'. Absorb h store store2 ks = Inr store'"
proof (induction ks arbitrary: store)
  case Nil
  then show ?case by simp
next
  case (Cons key ks)
  have "store2 key \<noteq> Some None"
    using Cons.prems by (simp add: entries_present_def)
  then show ?case
    using Cons.IH [OF Cons.prems] by (auto split: option.splits)
qed

lemma data_model_write:
  assumes inv: "data_model w"
    and w: "write_entry (memory w) (stores w j) key vt = (h', store')"
  shows "data_model \<lparr>memory = h', stores = (stores w)(j := store')\<rparr>"
proof -
  let ?w' = "\<lparr>memory = h', stores = (stores w)(j := store')\<rparr>"
  have wf: "well_formed w" and present: "\<And>i. entries_present (stores w i)" and owned: "key_owned w"
    using inv by (simp_all add: data_model_def)
  have alloc: "a < fresh (memory w)" if "stores w x k = Some (Some a)" for x k a
    using wf that by (auto simp: well_formed_def allocated_def)
  note m = write_entry_monotone [OF w]
  have wf': "well_formed ?w'"
    using write_step_monotone(1) [OF wf w refl] .
  have held: "store' k = stores w j k \<or> store' k = Some (Some (fresh (memory w))) \<and> k = key" for k
    using w [unfolded write_entry_unfold] by (auto split: option.splits if_splits)
  have present': "entries_present (stores ?w' i)" for i
    using present [of i] present [of j] held unfolding entries_present_def
    by (auto split: if_splits) (metis option.distinct(1) option.inject)
  have "key_owned ?w'"
    unfolding key_owned_def
  proof (intro allI impI)
    fix x y k k' a
    assume both: "stores ?w' x k = Some (Some a) \<and> stores ?w' y k' = Some (Some a)"
    have origin: "stores w z q = Some (Some b) \<or> b = fresh (memory w) \<and> q = key"
      if "stores ?w' z q = Some (Some b)" for z q b
      using that held [of q] by (auto split: if_splits)
    from both origin [of x k a] origin [of y k' a] alloc [of x k a] alloc [of y k' a] owned
    show "k = k'"
      unfolding key_owned_def by (metis less_irrefl)
  qed
  with wf' present' show ?thesis
    by (simp add: data_model_def)
qed

lemma data_model_subset:
  assumes inv: "data_model w"
    and from_w: "\<And>k. store' k = None \<or> (\<exists>x. store' k = stores w x k \<and> store' k \<noteq> None)"
  shows "data_model \<lparr>memory = memory w, stores = (stores w)(j := store')\<rparr>"
proof -
  let ?w' = "\<lparr>memory = memory w, stores = (stores w)(j := store')\<rparr>"
  have wf: "well_formed w" and present: "\<And>i. entries_present (stores w i)" and owned: "key_owned w"
    using inv by (simp_all add: data_model_def)
  have origin: "\<exists>z. stores w z q = Some (Some b)" if "stores ?w' x q = Some (Some b)" for x q b
    using that from_w [of q] by (auto split: if_splits)
  have "well_formed ?w'"
    unfolding well_formed_def allocated_def
  proof (intro allI impI)
    fix x k a
    assume "stores ?w' x k = Some (Some a)"
    from origin [OF this] show "a < fresh (memory ?w')"
      using wf by (auto simp: well_formed_def allocated_def)
  qed
  moreover have "entries_present (stores ?w' i)" for i
    unfolding entries_present_def
  proof
    fix k
    show "stores ?w' i k \<noteq> Some None"
      using present [of i] from_w [of k] present unfolding entries_present_def
      by (auto split: if_splits)
  qed
  moreover have "key_owned ?w'"
    unfolding key_owned_def
  proof (intro allI impI)
    fix x y k k' a
    assume "stores ?w' x k = Some (Some a) \<and> stores ?w' y k' = Some (Some a)"
    then obtain z z' where "stores w z k = Some (Some a)" "stores w z' k' = Some (Some a)"
      using origin by blast
    then show "k = k'"
      using owned unfolding key_owned_def by blast
  qed
  ultimately show ?thesis
    by (simp add: data_model_def)
qed

text \<open>None of the four operations panics in a world that satisfies the invariants, and each
  leaves a world that satisfies them.\<close>

lemma data_model_step:
  assumes inv: "data_model w"
  shows "\<exists>w'. apply_op w op = Inr w' \<and> data_model w'"
proof (cases op)
  case (OpSetTimestamped j key val ts)
  obtain h' store' where
    w: "write_entry (memory w) (stores w j) key \<lparr>Value = Some val, Timestamp = ts\<rparr> = (h', store')"
    by (cases "write_entry (memory w) (stores w j) key \<lparr>Value = Some val, Timestamp = ts\<rparr>")
  then have "apply_op w op = Inr \<lparr>memory = h', stores = (stores w)(j := store')\<rparr>"
    using OpSetTimestamped by (simp add: SetTimestamped_write_entry)
  with data_model_write [OF inv w] show ?thesis by blast
next
  case (OpDeleteTimestamped j key ts)
  obtain h' store' where
    w: "write_entry (memory w) (stores w j) key \<lparr>Value = None, Timestamp = ts\<rparr> = (h', store')"
    by (cases "write_entry (memory w) (stores w j) key \<lparr>Value = None, Timestamp = ts\<rparr>")
  then have "apply_op w op = Inr \<lparr>memory = h', stores = (stores w)(j := store')\<rparr>"
    using OpDeleteTimestamped by (simp add: DeleteTimestamped_write_entry)
  with data_model_write [OF inv w] show ?thesis by blast
next
  case (OpPurge j ks cutoff)
  have present: "entries_present (stores w j)"
    using inv by (simp add: data_model_def)
  then obtain store' where run: "Purge (memory w) (stores w j) ks cutoff = Inr store'"
    using Purge_returns by blast
  have "store' k = None \<or> (\<exists>x. store' k = stores w x k \<and> store' k \<noteq> None)" for k
    using Purge_keeps [OF run, of k] by auto
  from data_model_subset [OF inv this] run OpPurge show ?thesis
    by simp
next
  case (OpAbsorb j j2 ks)
  have present: "entries_present (stores w j2)"
    using inv by (simp add: data_model_def)
  then obtain store' where run: "Absorb (memory w) (stores w j) (stores w j2) ks = Inr store'"
    using Absorb_returns by blast
  have "store' k = None \<or> (\<exists>x. store' k = stores w x k \<and> store' k \<noteq> None)" for k
    using Absorb_moves_forward [OF run, of k] by auto
  from data_model_subset [OF inv this] run OpAbsorb show ?thesis
    by simp
qed

lemma data_model_empty: "data_model empty_world"
  by (simp add: data_model_def well_formed_def allocated_def entries_present_def key_owned_def
      empty_world_def)

lemma data_model_trace:
  "data_model w \<Longrightarrow>
   length (trace w ops) = Suc (length ops) \<and> (\<forall>w' \<in> set (trace w ops). data_model w')"
proof (induction ops arbitrary: w)
  case Nil
  then show ?case by simp
next
  case (Cons op ops)
  from data_model_step [OF Cons.prems, of op]
  obtain w' where step: "apply_op w op = Inr w'" and inv': "data_model w'"
    by blast
  from Cons.IH [OF inv'] step Cons.prems show ?case
    by simp
qed

text \<open>
  Where the invariants come from. Start with empty stores and make any sequence of
  \<^verbatim>\<open>SetTimestamped\<close>, \<^verbatim>\<open>DeleteTimestamped\<close>, \<^verbatim>\<open>Purge\<close> and
  \<^verbatim>\<open>Absorb\<close> calls, on any stores and with any visiting orders. No call panics, and
  in every world passed every pointer is allocated, every key has an Entry and every
  struct is held under a single key: the hypotheses of the theorems on \<^verbatim>\<open>Purge\<close>,
  \<^verbatim>\<open>Absorb\<close> and \<^verbatim>\<open>Hash\<close> hold for any two of its stores.
\<close>

theorem operations_keep_data_model:
  "length (trace empty_world ops) = Suc (length ops) \<and>
   (\<forall>w \<in> set (trace empty_world ops). \<forall>i j.
      entries_present (stores w i) \<and> allocated (memory w) (stores w i) \<and>
      owned_by_key (stores w i) (stores w j))"
proof -
  have "entries_present (stores w i) \<and> allocated (memory w) (stores w i) \<and>
      owned_by_key (stores w i) (stores w j)" if "data_model w" for w i j
    using that unfolding data_model_def well_formed_def key_owned_def owned_by_key_def
    by blast
  with data_model_trace [OF data_model_empty, of ops] show ?thesis
    by blast
qed

theorem operations_keep_data_model_witness:
  "length (trace empty_world shared_ops) = 7 \<and>
   entries_present (stores (last (trace empty_world shared_ops)) 0) \<and>
   allocated (memory (last (trace empty_world shared_ops))) (stores (last (trace empty_world shared_ops)) 0) \<and>
   owned_by_key (stores (last (trace empty_world shared_ops)) 0) (stores (last (trace empty_world shared_ops)) 1)"
proof -
  note all = operations_keep_data_model [of shared_ops]
  have len: "length (trace empty_world shared_ops) = 7"
    using all by (simp add: shared_ops_def)
  then have "trace empty_world shared_ops \<noteq> []"
    by auto
  then have "last (trace empty_world shared_ops) \<in> set (trace empty_world shared_ops)"
    by simp
  with all len show ?thesis
    by blast
qed

section \<open>Outside the data model\<close>

text \<open>Why ownership is assumed: when a map literal puts one struct under two keys, the
  replay overwrites that struct in place and so changes the other key as well, which
  \<^verbatim>\<open>Absorb\<close> does not.\<close>

lemma replay_differs_on_shared_struct:
  "Absorb literal_heap literal_store literal_donor [''x''] = Inr (literal_store(''x'' \<mapsto> Some 1)) \<and>
   entry literal_heap (literal_store(''x'' \<mapsto> Some 1)) ''y'' = Some \<lparr>Value = Some ''one'', Timestamp = 1\<rparr> \<and>
   (case replay literal_heap literal_store literal_donor [''x''] of
      Inl e \<Rightarrow> False
    | Inr (h', replayed) \<Rightarrow> entry h' replayed ''y'' = Some \<lparr>Value = Some ''two'', Timestamp = 2\<rparr>)"
  by (simp add: literal_heap_def literal_store_def literal_donor_def index_def entry_def
      write_entry_def SetTimestamped_def word_sless_alt)

text \<open>Why every key is assumed to have an Entry: a nil pointer in the map makes
  \<^verbatim>\<open>Purge\<close> and \<^verbatim>\<open>Hash\<close> panic, and \<^verbatim>\<open>Absorb\<close> too when the nil pointer
  is the donor's and the receiver has an Entry.\<close>

lemma nil_entry_panics:
  "Purge empty_heap [''A'' \<mapsto> None] [''A''] cutoff = Inl NilDereference \<and>
   Hash empty_heap [''A'' \<mapsto> None] [''A''] = Inl NilDereference \<and>
   Absorb empty_heap [''A'' \<mapsto> Some 0] [''A'' \<mapsto> None] [''A''] = Inl NilDereference"
  by (simp add: Hash_def index_def)

end
